theory Spec2Isabelle
  imports Complex_Main "HOL-Library.Sublist"
begin

section \<open>Data model\<close>

text \<open>
  The TypeScript declarations of \<^verbatim>\<open>LocationData\<close>, \<^verbatim>\<open>FilterState\<close> and
  \<^verbatim>\<open>ViewMode\<close> live in \<^verbatim>\<open>types.ts\<close>; the fields below are the ones that
  \<^verbatim>\<open>App.tsx\<close> and the map component read.

  Vote counts are JavaScript numbers that hold integers; they are modelled as \<open>int\<close>
  (negative values are not excluded by the type).  A \<^verbatim>\<open>Record<string, number>\<close> is
  modelled as the list of its entries in property enumeration order, the order in which
  \<^verbatim>\<open>Object.entries\<close> yields them.  Its keys are party and candidate names; the
  property names that every object inherits (\<^verbatim>\<open>constructor\<close>, \<^verbatim>\<open>toString\<close> and the
  like), for which a read does not give a number, are not among them.
\<close>

type_synonym tally = "(string \<times> int) list"

record LocationData =
  name :: string
  parentLocation :: string
  lat :: real
  lng :: real
  totalVotes :: int
  parties :: tally
  candidates :: tally
  winningParty :: string

record FilterState =
  minVotes :: int
  party :: string
  candidate :: string

datatype ViewMode = Heatmap | Party | Audit

section \<open>Property access on a tally\<close>

text \<open>
  \<^verbatim>\<open>(obj[k] || 0)\<close>: a missing property reads as \<^verbatim>\<open>undefined\<close>, which \<^verbatim>\<open>||\<close>
  replaces by 0 (as it does a stored 0).
\<close>

definition get_or0 :: "tally \<Rightarrow> string \<Rightarrow> int" where
  "get_or0 obj k = (case map_of obj k of None \<Rightarrow> 0 | Some v \<Rightarrow> v)"

section \<open>Filter engine (\<^verbatim>\<open>filteredData\<close> in App.tsx)\<close>

definition byParty :: "FilterState \<Rightarrow> LocationData list \<Rightarrow> LocationData list" where
  "byParty f data =
     (if party f \<noteq> ''ALL'' then filter (\<lambda>d. get_or0 (parties d) (party f) > 0) data else data)"

definition byCandidate :: "FilterState \<Rightarrow> LocationData list \<Rightarrow> LocationData list" where
  "byCandidate f data =
     (if candidate f \<noteq> ''ALL''
      then filter (\<lambda>d. get_or0 (candidates d) (candidate f) > 0) data else data)"

definition byMinVotes :: "FilterState \<Rightarrow> LocationData list \<Rightarrow> LocationData list" where
  "byMinVotes f data = filter (\<lambda>d. totalVotes d \<ge> minVotes f) data"

definition filteredData :: "LocationData list \<Rightarrow> FilterState \<Rightarrow> LocationData list" where
  "filteredData aggregatedData f = byMinVotes f (byCandidate f (byParty f aggregatedData))"

text \<open>The initial filter state of the application.\<close>

definition defaultFilters :: FilterState where
  "defaultFilters = \<lparr>minVotes = 0, party = ''ALL'', candidate = ''ALL''\<rparr>"

text \<open>The three predicates as the specification words them.\<close>

definition positive_entry :: "tally \<Rightarrow> string \<Rightarrow> bool" where
  "positive_entry obj k = (case map_of obj k of None \<Rightarrow> False | Some v \<Rightarrow> v > 0)"

definition partyOk :: "FilterState \<Rightarrow> LocationData \<Rightarrow> bool" where
  "partyOk f d = (party f = ''ALL'' \<or> positive_entry (parties d) (party f))"

definition candidateOk :: "FilterState \<Rightarrow> LocationData \<Rightarrow> bool" where
  "candidateOk f d = (candidate f = ''ALL'' \<or> positive_entry (candidates d) (candidate f))"

definition minVotesOk :: "FilterState \<Rightarrow> LocationData \<Rightarrow> bool" where
  "minVotesOk f d = (totalVotes d \<ge> minVotes f)"

section \<open>JavaScript numbers\<close>

text \<open>
  A JavaScript number is an IEEE 754 double: a finite value with a significand of 53
  bits, an infinity, or \<^verbatim>\<open>NaN\<close>.  A finite double is modelled by the real number it
  denotes; the two zeros are not told apart (the numbers that the code reads are
  integers, whose zero is the positive one, and only such a zero is ever a divisor).
  Every arithmetic operation rounds its exact result to the nearest double, ties to the
  even significand.
\<close>

datatype jsnum = Fin real | PosInf | NegInf | NaN

text \<open>The number of binary digits of a natural number.\<close>

fun bit_length :: "nat \<Rightarrow> nat" where
  "bit_length n = (if n = 0 then 0 else Suc (bit_length (n div 2)))"

declare bit_length.simps [simp del]

text \<open>The exponent \<open>e\<close> with \<open>2^e \<le> |x| < 2^(e+1)\<close>, for \<open>x\<close> other than 0.\<close>

definition binade :: "real \<Rightarrow> int" where
  "binade x =
     (if 1 \<le> \<bar>x\<bar> then int (bit_length (nat \<lfloor>\<bar>x\<bar>\<rfloor>)) - 1
      else - int (bit_length (nat (\<lceil>1 / \<bar>x\<bar>\<rceil> - 1))))"

text \<open>Rounding to the nearest integer, a tie to the even one.\<close>

definition round_even :: "real \<Rightarrow> int" where
  "round_even y =
     (let f = \<lfloor>y\<rfloor>
      in if y - of_int f < 1 / 2 then f
         else if y - of_int f > 1 / 2 then f + 1
         else if even f then f else f + 1)"

text \<open>
  The exponent of the spacing of the doubles around \<open>x\<close>: 52 below the binade, and
  \<open>-1074\<close> in the subnormal range.
\<close>

definition ulp_exp :: "real \<Rightarrow> int" where
  "ulp_exp x = max (binade x - 52) (- 1074)"

text \<open>The multiple of the spacing nearest to \<open>x\<close>.\<close>

definition rnd :: "real \<Rightarrow> real" where
  "rnd x = (if x = 0 then 0 else of_int (round_even (x / 2 powi ulp_exp x)) * 2 powi ulp_exp x)"

text \<open>Rounding to a double: a result of magnitude \<open>2^1024\<close> or more overflows.\<close>

definition fl :: "real \<Rightarrow> jsnum" where
  "fl x =
     (let r = rnd x
      in if 2 ^ 1024 \<le> r then PosInf else if r \<le> - (2 ^ 1024) then NegInf else Fin r)"

text \<open>The number that holds an integer, and the value of a decimal literal.\<close>

definition num :: "int \<Rightarrow> jsnum" where
  "num k = fl (of_int k)"

definition lit :: "real \<Rightarrow> real" where
  "lit x = rnd x"

text \<open>\<^verbatim>\<open>x + y\<close>, \<^verbatim>\<open>x * y\<close>, \<^verbatim>\<open>x / y\<close> and \<^verbatim>\<open>x > y\<close>\<close>

fun js_add :: "jsnum \<Rightarrow> jsnum \<Rightarrow> jsnum" where
  "js_add (Fin a) (Fin b) = fl (a + b)"
| "js_add NaN y = NaN"
| "js_add x NaN = NaN"
| "js_add PosInf NegInf = NaN"
| "js_add NegInf PosInf = NaN"
| "js_add PosInf y = PosInf"
| "js_add x PosInf = PosInf"
| "js_add NegInf y = NegInf"
| "js_add x NegInf = NegInf"

fun js_mul :: "jsnum \<Rightarrow> jsnum \<Rightarrow> jsnum" where
  "js_mul (Fin a) (Fin b) = fl (a * b)"
| "js_mul NaN y = NaN"
| "js_mul x NaN = NaN"
| "js_mul PosInf (Fin b) = (if b = 0 then NaN else if 0 < b then PosInf else NegInf)"
| "js_mul NegInf (Fin b) = (if b = 0 then NaN else if 0 < b then NegInf else PosInf)"
| "js_mul (Fin a) PosInf = (if a = 0 then NaN else if 0 < a then PosInf else NegInf)"
| "js_mul (Fin a) NegInf = (if a = 0 then NaN else if 0 < a then NegInf else PosInf)"
| "js_mul PosInf PosInf = PosInf"
| "js_mul NegInf NegInf = PosInf"
| "js_mul PosInf NegInf = NegInf"
| "js_mul NegInf PosInf = NegInf"

fun js_div :: "jsnum \<Rightarrow> jsnum \<Rightarrow> jsnum" where
  "js_div (Fin a) (Fin b) =
     (if b = 0 then (if a = 0 then NaN else if 0 < a then PosInf else NegInf)
      else fl (a / b))"
| "js_div NaN y = NaN"
| "js_div x NaN = NaN"
| "js_div (Fin a) PosInf = Fin 0"
| "js_div (Fin a) NegInf = Fin 0"
| "js_div PosInf (Fin b) = (if 0 \<le> b then PosInf else NegInf)"
| "js_div NegInf (Fin b) = (if 0 \<le> b then NegInf else PosInf)"
| "js_div x y = NaN"

fun js_greater :: "jsnum \<Rightarrow> jsnum \<Rightarrow> bool" where
  "js_greater (Fin a) (Fin b) = (b < a)"
| "js_greater NaN y = False"
| "js_greater x NaN = False"
| "js_greater PosInf PosInf = False"
| "js_greater PosInf y = True"
| "js_greater x PosInf = False"
| "js_greater NegInf y = False"
| "js_greater x NegInf = True"

text \<open>\<^verbatim>\<open>Math.min(x, y)\<close>, \<^verbatim>\<open>Math.max(x, y)\<close> and \<^verbatim>\<open>Math.sqrt(x)\<close>\<close>

definition Math_min :: "jsnum \<Rightarrow> jsnum \<Rightarrow> jsnum" where
  "Math_min x y = (if x = NaN \<or> y = NaN then NaN else if js_greater x y then y else x)"

definition Math_max2 :: "jsnum \<Rightarrow> jsnum \<Rightarrow> jsnum" where
  "Math_max2 x y = (if x = NaN \<or> y = NaN then NaN else if js_greater y x then y else x)"

fun Math_sqrt :: "jsnum \<Rightarrow> jsnum" where
  "Math_sqrt (Fin x) = (if x < 0 then NaN else fl (sqrt x))"
| "Math_sqrt PosInf = PosInf"
| "Math_sqrt NegInf = NaN"
| "Math_sqrt NaN = NaN"

section \<open>Classifier (\<^verbatim>\<open>stats\<close> and \<^verbatim>\<open>getVisuals\<close> in the map component)\<close>

datatype error = RangeError

record Stats =
  max_stat :: jsnum
  avg :: jsnum

text \<open>
  \<^verbatim>\<open>Math.max(...xs)\<close> passes every element of the array as an argument of one call.  An
  engine accepts a bounded number of arguments and throws \<^verbatim>\<open>RangeError\<close> beyond it; the
  bound depends on the engine and is the parameter \<open>maxArgs\<close>.  With no argument the
  result is \<open>-Infinity\<close>.
\<close>

definition Math_max :: "nat \<Rightarrow> jsnum list \<Rightarrow> error + jsnum" where
  "Math_max maxArgs xs =
     (if maxArgs < length xs then Inl RangeError else Inr (fold (\<lambda>x m. Math_max2 m x) xs NegInf))"

definition stats :: "nat \<Rightarrow> LocationData list \<Rightarrow> error + Stats" where
  "stats maxArgs data =
     (if length data = 0 then Inr \<lparr>max_stat = num 100, avg = num 0\<rparr>
      else case Math_max maxArgs (map (\<lambda>d. num (totalVotes d)) data) of
             Inl e \<Rightarrow> Inl e
           | Inr m \<Rightarrow>
               Inr \<lparr>max_stat = m,
                    avg = js_div (fold (\<lambda>c acc. js_add acc (num (totalVotes c))) data (num 0))
                            (num (int (length data)))\<rparr>)"

text \<open>
  The table \<^verbatim>\<open>PARTY_COLORS\<close>, in the order of the object literal.  The accented
  letters are the two UTF-8 bytes they have in the source file; substring containment
  and splitting at a space are the same on the bytes as on the characters.
\<close>

definition PARTY_COLORS :: "(string \<times> string) list" where
  "PARTY_COLORS =
     [(''PARTIDO CENTRO DEMOCR'' @ [CHR 0xC3, CHR 0x81] @ ''TICO'', ''#0ea5e9''),
      (''PACTO HIST'' @ [CHR 0xC3, CHR 0x93] @ ''RICO'', ''#9333ea''),
      (''PARTIDO LIBERAL'', ''#ef4444''),
      (''PARTIDO CONSERVADOR'', ''#1d4ed8''),
      (''ALIANZA VERDE'', ''#22c55e''),
      (''DEFAULT'', ''#64748b'')]"

text \<open>\<^verbatim>\<open>s.split(c)\<close> for a one-character separator.\<close>

fun split_on :: "char \<Rightarrow> string \<Rightarrow> string list" where
  "split_on c [] = [[]]"
| "split_on c (x # xs) =
     (if x = c then [] # split_on c xs
      else (case split_on c xs of [] \<Rightarrow> [[x]] | w # ws \<Rightarrow> (x # w) # ws))"

text \<open>
  \<^verbatim>\<open>k.split(' ')[1]\<close> as the argument of \<^verbatim>\<open>includes\<close>: an index out of range reads
  as \<^verbatim>\<open>undefined\<close>, which \<^verbatim>\<open>includes\<close> converts to the string "undefined".
\<close>

definition token :: "string \<Rightarrow> string" where
  "token k = (case split_on (CHR '' '') k of _ # w # _ \<Rightarrow> w | _ \<Rightarrow> ''undefined'')"

definition str_includes :: "string \<Rightarrow> string \<Rightarrow> bool" where
  "str_includes s t = sublist t s"

definition partyColor :: "string \<Rightarrow> string" where
  "partyColor wp =
     (let party = (if wp = [] then ''DEFAULT'' else wp);
          matchedKey = (case find (\<lambda>k. str_includes party (token k)) (map fst PARTY_COLORS) of
                          Some k \<Rightarrow> k | None \<Rightarrow> ''DEFAULT'')
      in case map_of PARTY_COLORS matchedKey of
           Some c \<Rightarrow> c
         | None \<Rightarrow> (case map_of PARTY_COLORS ''DEFAULT'' of Some c \<Rightarrow> c | None \<Rightarrow> []))"

text \<open>
  The marker attributes.  The radius is computed and is a number; the opacity is only
  passed on and holds the decimal of its literal.
\<close>

record Visuals =
  radius :: jsnum
  color :: string
  opacity :: real
  stroke :: bool

definition heatColor :: "jsnum \<Rightarrow> string" where
  "heatColor intensity =
     (if js_greater intensity (Fin (lit 0.8)) then ''#7f1d1d''
      else if js_greater intensity (Fin (lit 0.6)) then ''#dc2626''
      else if js_greater intensity (Fin (lit 0.4)) then ''#ea580c''
      else if js_greater intensity (Fin (lit 0.2)) then ''#f59e0b''
      else ''#fbbf24'')"

text \<open>
  \<^verbatim>\<open>getVisuals\<close> is a closure over \<^verbatim>\<open>stats\<close> and \<^verbatim>\<open>viewMode\<close>; they are its first two
  arguments here.
\<close>

definition getVisuals :: "Stats \<Rightarrow> ViewMode \<Rightarrow> LocationData \<Rightarrow> Visuals" where
  "getVisuals st viewMode loc =
     (let v0 = \<lparr>radius = js_add (num 4)
                            (js_mul (Math_sqrt (num (totalVotes loc))) (Fin (lit 0.8))),
                color = ''#fbbf24'', opacity = 0.6, stroke = False\<rparr>
      in case viewMode of
           Heatmap \<Rightarrow>
             v0\<lparr>color := heatColor
                    (Math_min (js_div (num (totalVotes loc)) (max_stat st)) (num 1))\<rparr>
         | Party \<Rightarrow>
             v0\<lparr>color := partyColor (winningParty loc), opacity := 0.8, radius := Fin 8\<rparr>
         | Audit \<Rightarrow>
             (let isAnomaly =
                    js_greater (num (totalVotes loc)) (js_mul (avg st) (Fin (lit 1.8)))
              in v0\<lparr>color := (if isAnomaly then ''#ef4444'' else ''#10b981''),
                    radius := (if isAnomaly then Fin 15 else Fin 5),
                    opacity := (if isAnomaly then 0.9 else 0.4),
                    stroke := isAnomaly\<rparr>))"

text \<open>
  The body of the component: the statistics of the visible set, then the attributes of
  one marker for each location.
\<close>

definition VoteMap :: "nat \<Rightarrow> LocationData list \<Rightarrow> ViewMode \<Rightarrow> error + Visuals list" where
  "VoteMap maxArgs data viewMode =
     (case stats maxArgs data of
        Inl e \<Rightarrow> Inl e
      | Inr st \<Rightarrow> Inr (map (getVisuals st viewMode) data))"

text \<open>The colour bands of the heat view as the specification words them.\<close>

definition heat_band :: "real \<Rightarrow> string" where
  "heat_band x =
     (if x > 0.8 then ''#7f1d1d''
      else if x > 0.6 then ''#dc2626''
      else if x > 0.4 then ''#ea580c''
      else if x > 0.2 then ''#f59e0b''
      else ''#fbbf24'')"

section \<open>Writing a property of a tally\<close>

text \<open>
  A property key that is an array index (the canonical decimal numeral of an integer
  below \<open>2^32 - 1\<close>) is enumerated before every other key, in ascending numeric order;
  the other keys are enumerated in the order of their creation.
\<close>

definition is_digit :: "char \<Rightarrow> bool" where
  "is_digit c = (48 \<le> (of_char c :: nat) \<and> (of_char c :: nat) \<le> 57)"

definition index_value :: "string \<Rightarrow> nat" where
  "index_value s = fold (\<lambda>c n. 10 * n + ((of_char c :: nat) - 48)) s 0"

definition is_array_index :: "string \<Rightarrow> bool" where
  "is_array_index s =
     (s \<noteq> [] \<and> list_all is_digit s \<and> (s = ''0'' \<or> hd s \<noteq> CHR ''0'')
      \<and> index_value s < 4294967295)"

fun js_update :: "tally \<Rightarrow> string \<Rightarrow> int \<Rightarrow> tally" where
  "js_update [] k v = []"
| "js_update ((k', v') # r) k v = (if k' = k then (k, v) # r else (k', v') # js_update r k v)"

fun insert_index :: "string \<Rightarrow> int \<Rightarrow> tally \<Rightarrow> tally" where
  "insert_index k v [] = [(k, v)]"
| "insert_index k v ((k', v') # r) =
     (if is_array_index k' \<and> index_value k' < index_value k
      then (k', v') # insert_index k v r
      else (k, v) # (k', v') # r)"

text \<open>\<^verbatim>\<open>obj[k] = v\<close>\<close>

definition js_set :: "tally \<Rightarrow> string \<Rightarrow> int \<Rightarrow> tally" where
  "js_set obj k v =
     (if k \<in> set (map fst obj) then js_update obj k v
      else if is_array_index k then insert_index k v obj
      else obj @ [(k, v)])"

section \<open>Leaderboards (\<^verbatim>\<open>analytics\<close> in App.tsx)\<close>

text \<open>
  The accumulators \<^verbatim>\<open>partyTotals\<close> and \<^verbatim>\<open>candidateTotals\<close> start as \<^verbatim>\<open>{}\<close>, an object
  that inherits the properties of \<^verbatim>\<open>Object.prototype\<close>.  A read \<^verbatim>\<open>totals[p]\<close> gives the
  own property when there is one, else the inherited function or object when \<^verbatim>\<open>p\<close> is
  one of the inherited names, else \<^verbatim>\<open>undefined\<close>.
\<close>

definition inherited_names :: "string list" where
  "inherited_names =
     [''constructor'', ''hasOwnProperty'', ''isPrototypeOf'', ''propertyIsEnumerable'',
      ''toLocaleString'', ''toString'', ''valueOf'', ''__defineGetter__'',
      ''__defineSetter__'', ''__lookupGetter__'', ''__lookupSetter__'', ''__proto__'']"

datatype jsval = Number int | Undefined | Inherited

definition js_get :: "tally \<Rightarrow> string \<Rightarrow> jsval" where
  "js_get obj k =
     (case map_of obj k of
        Some v \<Rightarrow> Number v
      | None \<Rightarrow> if k \<in> set inherited_names then Inherited else Undefined)"

text \<open>
  The double nearest to an integer, as the integer it is; \<open>None\<close> when it overflows to
  an infinity.
\<close>

definition number :: "int \<Rightarrow> int option" where
  "number k = (case num k of Fin r \<Rightarrow> Some \<lfloor>r\<rfloor> | _ \<Rightarrow> None)"

text \<open>
  The body of the inner \<^verbatim>\<open>forEach\<close>, \<^verbatim>\<open>totals[p] = (totals[p] || 0) + v\<close> under its
  guard; \<^verbatim>\<open>sel\<close> is \<^verbatim>\<open>filters.party\<close> or \<^verbatim>\<open>filters.candidate\<close>.  An own property or
  \<^verbatim>\<open>undefined\<close> gives a sum of two numbers, which is rounded.  An inherited function or
  object is truthy and \<^verbatim>\<open>+\<close> concatenates it with the number into a string: under
  \<^verbatim>\<open>__proto__\<close> the inherited setter ignores the string and nothing is stored; under any
  other inherited name the string becomes an own property.  The result is \<open>None\<close> as soon
  as a tally holds a value that is not a finite number.
\<close>

definition add_entry :: "string \<Rightarrow> string \<times> int \<Rightarrow> tally \<Rightarrow> tally option" where
  "add_entry sel e totals =
     (if sel = ''ALL'' \<or> sel = fst e then
        (case js_get totals (fst e) of
           Inherited \<Rightarrow> if fst e = ''__proto__'' then Some totals else None
         | Undefined \<Rightarrow> map_option (js_set totals (fst e)) (number (0 + snd e))
         | Number n \<Rightarrow> map_option (js_set totals (fst e)) (number (n + snd e)))
      else Some totals)"

text \<open>A \<^verbatim>\<open>forEach\<close> whose body may leave the numbers.\<close>

fun fold_option :: "('a \<Rightarrow> 'b \<Rightarrow> 'b option) \<Rightarrow> 'a list \<Rightarrow> 'b \<Rightarrow> 'b option" where
  "fold_option f [] s = Some s"
| "fold_option f (x # xs) s = (case f x s of None \<Rightarrow> None | Some s' \<Rightarrow> fold_option f xs s')"

definition add_location ::
  "FilterState \<Rightarrow> LocationData \<Rightarrow> tally option \<times> tally option \<Rightarrow> tally option \<times> tally option"
where
  "add_location f loc acc =
     (Option.bind (fst acc) (fold_option (add_entry (party f)) (parties loc)),
      Option.bind (snd acc) (fold_option (add_entry (candidate f)) (candidates loc)))"

text \<open>
  \<^verbatim>\<open>.sort((a,b) => b[1] - a[1])\<close>: the difference of two finite doubles has the sign of
  the exact difference, and the sort of an array is stable, so it is the insertion sort
  on the negated value.
\<close>

definition sort_desc :: "tally \<Rightarrow> tally" where
  "sort_desc t = sort_key (\<lambda>e. - snd e) t"

record Analytics =
  topParties :: "tally option"
  topCandidates :: "tally option"

definition analytics :: "LocationData list \<Rightarrow> FilterState \<Rightarrow> Analytics" where
  "analytics filtered f =
     (let totals = fold (add_location f) filtered (Some [], Some [])
      in \<lparr>topParties = map_option (\<lambda>t. take 5 (sort_desc t)) (fst totals),
          topCandidates = map_option (\<lambda>t. take 5 (sort_desc t)) (snd totals)\<rparr>)"

text \<open>
  Words of the specification: the order in which keys are first seen, the sum of the
  entries of one key, the sum of the values of a tally, the entries that a filter
  selects, a list sorted non-increasing by value.
\<close>

fun first_seen :: "string list \<Rightarrow> string list" where
  "first_seen [] = []"
| "first_seen (k # ks) = k # filter (\<lambda>x. x \<noteq> k) (first_seen ks)"

definition key_total :: "(string \<times> int) list \<Rightarrow> string \<Rightarrow> int" where
  "key_total es k = sum_list (map snd (filter (\<lambda>e. fst e = k) es))"

definition tally_sum :: "tally \<Rightarrow> int" where
  "tally_sum t = sum_list (map snd t)"

definition selected :: "string \<Rightarrow> (string \<times> int) list \<Rightarrow> (string \<times> int) list" where
  "selected sel es = filter (\<lambda>e. sel = ''ALL'' \<or> sel = fst e) es"

definition non_increasing :: "tally \<Rightarrow> bool" where
  "non_increasing t = sorted_wrt (\<lambda>a b. snd a \<ge> snd b) t"

text \<open>
  The order in which the keys of an object are enumerated, from the order of their
  creation: an array index goes before the first key that is not an array index or is a
  greater one, any other key goes to the end.
\<close>

fun insert_key :: "string \<Rightarrow> string list \<Rightarrow> string list" where
  "insert_key k [] = [k]"
| "insert_key k (k' # r) =
     (if is_array_index k' \<and> index_value k' < index_value k then k' # insert_key k r
      else k # k' # r)"

definition place_key :: "string \<Rightarrow> string list \<Rightarrow> string list" where
  "place_key k ks = (if is_array_index k then insert_key k ks else ks @ [k])"

definition property_order :: "string list \<Rightarrow> string list" where
  "property_order ks = fold place_key ks []"

text \<open>The sum of each key, the keys in the order of enumeration.\<close>

definition totals_in_order :: "(string \<times> int) list \<Rightarrow> tally" where
  "totals_in_order es =
     map (\<lambda>k. (k, key_total es k)) (property_order (first_seen (map fst es)))"

text \<open>
  Entries whose sums stay numbers: no key is an inherited name, and the absolute values
  add up to less than \<open>2^53\<close>, so that every partial sum is a double.
\<close>

definition safe_entries :: "(string \<times> int) list \<Rightarrow> bool" where
  "safe_entries es =
     ((\<forall>e \<in> set es. fst e \<notin> set inherited_names)
      \<and> sum_list (map (\<lambda>e. \<bar>snd e\<bar>) es) < 2 ^ 53)"

section \<open>Simulated live stream (the interval callback in App.tsx)\<close>

text \<open>
  \<^verbatim>\<open>Math.random()\<close> is the next element of a sequence \<open>rng\<close> of draws; the position in
  the sequence is threaded through the \<^verbatim>\<open>map\<close>.
\<close>

definition tick_loc :: "(nat \<Rightarrow> real) \<Rightarrow> nat \<Rightarrow> LocationData \<Rightarrow> LocationData \<times> nat" where
  "tick_loc rng i loc =
     (if rng i > 0.7
      then (let increase = \<lfloor>rng (i + 1) * 5\<rfloor>
            in (loc\<lparr>totalVotes := totalVotes loc + increase\<rparr>, i + 2))
      else (loc, i + 1))"

fun tick :: "(nat \<Rightarrow> real) \<Rightarrow> nat \<Rightarrow> LocationData list \<Rightarrow> LocationData list" where
  "tick rng i [] = []"
| "tick rng i (loc # prev) =
     (case tick_loc rng i loc of (loc', i') \<Rightarrow> loc' # tick rng i' prev)"

definition location_key :: "LocationData \<Rightarrow> string \<times> string" where
  "location_key loc = (name loc, parentLocation loc)"

text \<open>
  What one tick may do to a location: \<open>totalVotes\<close> grows by at most 4 and nothing else
  changes.
\<close>

definition only_total_grew :: "LocationData \<Rightarrow> LocationData \<Rightarrow> bool" where
  "only_total_grew old new =
     (totalVotes old \<le> totalVotes new \<and> totalVotes new \<le> totalVotes old + 4
      \<and> new\<lparr>totalVotes := totalVotes old\<rparr> = old)"

section \<open>Aggregator\<close>

text \<open>
  One row of raw input, as section 3 of the specification describes it; \<^verbatim>\<open>App.tsx\<close>
  reads \<open>partyName\<close> and \<open>candidateName\<close>.
\<close>

record VoteRecord =
  pollingStation :: string
  parentArea :: string
  latitude :: real
  longitude :: real
  partyName :: string
  candidateName :: string
  voteCount :: int

text \<open>
  Modelled from the spec: \<^verbatim>\<open>aggregateByLocation\<close> of \<^verbatim>\<open>utils/csvParser\<close> is
  not among the sources.  The five definitions that follow are written from section 4.1
  of the specification.
\<close>

text \<open>
  Modelled from the spec: a record adds its vote count to \<open>totalVotes\<close>, to the entry of
  its party in the party mapping and to the entry of its candidate in the candidate
  mapping of its group.
\<close>

definition bump :: "VoteRecord \<Rightarrow> LocationData \<Rightarrow> LocationData" where
  "bump r ld =
     ld\<lparr>totalVotes := totalVotes ld + voteCount r,
        parties := js_set (parties ld) (partyName r)
                     (get_or0 (parties ld) (partyName r) + voteCount r),
        candidates := js_set (candidates ld) (candidateName r)
                        (get_or0 (candidates ld) (candidateName r) + voteCount r)\<rparr>"

text \<open>Modelled from the spec: the group of a location key before its first record.\<close>

definition new_location :: "VoteRecord \<Rightarrow> LocationData" where
  "new_location r =
     \<lparr>name = pollingStation r, parentLocation = parentArea r, lat = latitude r,
      lng = longitude r, totalVotes = 0, parties = [], candidates = [], winningParty = []\<rparr>"

text \<open>
  Modelled from the spec: records are grouped by location key (name and parent
  location), and each key has one group.
\<close>

fun add_record :: "VoteRecord \<Rightarrow> LocationData list \<Rightarrow> LocationData list" where
  "add_record r [] = [bump r (new_location r)]"
| "add_record r (ld # lds) =
     (if location_key ld = (pollingStation r, parentArea r) then bump r ld # lds
      else ld # add_record r lds)"

text \<open>
  Modelled from the spec: the winning party is the party with the greatest sum, the
  first-inserted one on a tie.
\<close>

fun winner :: "tally \<Rightarrow> string" where
  "winner [] = []"
| "winner (e # es) = fst (fold (\<lambda>x best. if snd x > snd best then x else best) es e)"

text \<open>
  Modelled from the spec: the aggregate of a sequence of records; no record gives the
  empty sequence.
\<close>

definition aggregateByLocation :: "VoteRecord list \<Rightarrow> LocationData list" where
  "aggregateByLocation records =
     map (\<lambda>ld. ld\<lparr>winningParty := winner (parties ld)\<rparr>) (fold add_record records [])"

text \<open>The invariant of a location: the total is the sum of either mapping.\<close>

definition consistent :: "LocationData \<Rightarrow> bool" where
  "consistent ld =
     (totalVotes ld = tally_sum (parties ld) \<and> totalVotes ld = tally_sum (candidates ld))"

section \<open>Sample data for the concrete instances\<close>

definition station :: "string \<Rightarrow> int \<Rightarrow> tally \<Rightarrow> tally \<Rightarrow> LocationData" where
  "station n t ps cs =
     \<lparr>name = n, parentLocation = ''MEDELLIN'', lat = 6.2442, lng = - 75.5812, totalVotes = t,
      parties = ps, candidates = cs, winningParty = (case ps of [] \<Rightarrow> [] | e # _ \<Rightarrow> fst e)\<rparr>"

definition vote :: "string \<Rightarrow> string \<Rightarrow> string \<Rightarrow> int \<Rightarrow> VoteRecord" where
  "vote st p c n =
     \<lparr>pollingStation = st, parentArea = ''MEDELLIN'', latitude = 6.2442, longitude = - 75.5812,
      partyName = p, candidateName = c, voteCount = n\<rparr>"

section \<open>Filter engine: properties\<close>

lemma get_or0_pos: "get_or0 obj k > 0 \<longleftrightarrow> positive_entry obj k"
  by (simp add: get_or0_def positive_entry_def split: option.splits)

lemma filteredData_filter:
  "filteredData S f = filter (\<lambda>d. partyOk f d \<and> candidateOk f d \<and> minVotesOk f d) S"
  by (auto simp: filteredData_def byParty_def byCandidate_def byMinVotes_def partyOk_def
      candidateOk_def minVotesOk_def get_or0_pos intro: filter_cong)

lemma byParty_filter: "byParty f S = filter (partyOk f) S"
  by (auto simp: byParty_def partyOk_def get_or0_pos intro: filter_cong)

lemma byCandidate_filter: "byCandidate f S = filter (candidateOk f) S"
  by (auto simp: byCandidate_def candidateOk_def get_or0_pos intro: filter_cong)

lemma byMinVotes_filter: "byMinVotes f S = filter (minVotesOk f) S"
  by (simp add: byMinVotes_def minVotesOk_def cong: filter_cong)

text \<open>
  C3: a location is in the output of the filter exactly when it is in the input and
  satisfies the party predicate (sentinel \<open>ALL\<close> or a strictly positive entry for the
  selected party), the candidate predicate (the same for the candidate) and
  \<open>totalVotes \<ge> minVotes\<close>; the output is the input with the other locations removed.
\<close>

theorem filter_membership:
  "(d \<in> set (filteredData S f) \<longleftrightarrow>
      d \<in> set S \<and> partyOk f d \<and> candidateOk f d \<and> minVotesOk f d)
   \<and> filteredData S f = filter (\<lambda>d. partyOk f d \<and> candidateOk f d \<and> minVotesOk f d) S"
  by (auto simp: filteredData_filter)

theorem filter_membership_witness:
  "filteredData
     [station ''A'' 12 [(''VERDE'', 12)] [(''ana'', 12)],
      station ''B'' 7 [(''LIBERAL'', 7)] [(''ana'', 7)],
      station ''C'' 3 [(''VERDE'', 0), (''LIBERAL'', 3)] [(''luis'', 3)],
      station ''D'' 2 [(''VERDE'', 2)] [(''ana'', 2)]]
     \<lparr>minVotes = 5, party = ''VERDE'', candidate = ''ALL''\<rparr>
   = [station ''A'' 12 [(''VERDE'', 12)] [(''ana'', 12)]]"
  using filter_membership
    [of "station ''A'' 12 [(''VERDE'', 12)] [(''ana'', 12)]"
        "[station ''A'' 12 [(''VERDE'', 12)] [(''ana'', 12)],
          station ''B'' 7 [(''LIBERAL'', 7)] [(''ana'', 7)],
          station ''C'' 3 [(''VERDE'', 0), (''LIBERAL'', 3)] [(''luis'', 3)],
          station ''D'' 2 [(''VERDE'', 2)] [(''ana'', 2)]]"
        "\<lparr>minVotes = 5, party = ''VERDE'', candidate = ''ALL''\<rparr>"]
  by (simp add: station_def partyOk_def candidateOk_def minVotesOk_def positive_entry_def)

text \<open>
  C7: filtering twice with the same filter state is filtering once; the output is a
  subsequence of the input (relative order kept); the three stages give the same result
  in each of their six orders.
\<close>

theorem filter_idempotent_order:
  "filteredData (filteredData S f) f = filteredData S f
   \<and> subseq (filteredData S f) S
   \<and> byMinVotes f (byParty f (byCandidate f S)) = filteredData S f
   \<and> byCandidate f (byMinVotes f (byParty f S)) = filteredData S f
   \<and> byCandidate f (byParty f (byMinVotes f S)) = filteredData S f
   \<and> byParty f (byMinVotes f (byCandidate f S)) = filteredData S f
   \<and> byParty f (byCandidate f (byMinVotes f S)) = filteredData S f"
  by (auto simp: filteredData_filter byParty_filter byCandidate_filter byMinVotes_filter
      intro: filter_cong)

theorem filter_idempotent_order_witness:
  "filteredData
     (filteredData
        [station ''A'' 12 [(''VERDE'', 12)] [(''ana'', 12)],
         station ''B'' 7 [(''LIBERAL'', 7)] [(''ana'', 7)],
         station ''D'' 2 [(''VERDE'', 2)] [(''ana'', 2)]]
        \<lparr>minVotes = 1, party = ''VERDE'', candidate = ''ana''\<rparr>)
     \<lparr>minVotes = 1, party = ''VERDE'', candidate = ''ana''\<rparr>
   = [station ''A'' 12 [(''VERDE'', 12)] [(''ana'', 12)],
      station ''D'' 2 [(''VERDE'', 2)] [(''ana'', 2)]]"
  using filter_idempotent_order
    [of "[station ''A'' 12 [(''VERDE'', 12)] [(''ana'', 12)],
          station ''B'' 7 [(''LIBERAL'', 7)] [(''ana'', 7)],
          station ''D'' 2 [(''VERDE'', 2)] [(''ana'', 2)]]"
        "\<lparr>minVotes = 1, party = ''VERDE'', candidate = ''ana''\<rparr>"]
  by (simp add: filteredData_filter station_def partyOk_def candidateOk_def minVotesOk_def
      positive_entry_def)

text \<open>
  C9: when no location has a negative \<open>totalVotes\<close>, the initial filter state
  (\<open>minVotes = 0\<close>, party \<open>ALL\<close>, candidate \<open>ALL\<close>) returns the input sequence unchanged.
\<close>

theorem default_filter_identity:
  assumes "\<forall>d \<in> set S. totalVotes d \<ge> 0"
  shows "filteredData S defaultFilters = S"
  using assms
  by (simp add: filteredData_def byParty_def byCandidate_def byMinVotes_def defaultFilters_def)

theorem default_filter_identity_witness:
  "totalVotes (station ''A'' 12 [(''VERDE'', 12)] []) \<ge> 0
   \<and> totalVotes (station ''B'' 0 [] []) \<ge> 0
   \<and> filteredData [station ''A'' 12 [(''VERDE'', 12)] [], station ''B'' 0 [] []] defaultFilters
       = [station ''A'' 12 [(''VERDE'', 12)] [], station ''B'' 0 [] []]"
proof -
  have h: "\<forall>d \<in> set [station ''A'' 12 [(''VERDE'', 12)] [], station ''B'' 0 [] []].
             totalVotes d \<ge> 0"
    by (simp add: station_def)
  show ?thesis
    using h default_filter_identity [OF h] by simp
qed

section \<open>JavaScript numbers: properties\<close>

lemma bit_length_bounds:
  "0 < n \<Longrightarrow> 2 ^ (bit_length n - 1) \<le> n \<and> n < 2 ^ bit_length n"
proof (induction n rule: bit_length.induct)
  case (1 n)
  show ?case
  proof (cases "n div 2 = 0")
    case True
    with 1(2) have "n = 1" by (simp add: div_eq_0_iff)
    then show ?thesis by (simp add: bit_length.simps)
  next
    case False
    then have pos: "0 < n div 2" by simp
    from 1(2) have n0: "n \<noteq> 0" by simp
    from 1(1) [OF n0 pos] have ih: "2 ^ (bit_length (n div 2) - 1) \<le> n div 2"
      "n div 2 < 2 ^ bit_length (n div 2)" by simp_all
    have bl: "bit_length n = Suc (bit_length (n div 2))" using n0 by (subst bit_length.simps) simp
    have bp: "0 < bit_length (n div 2)" using pos by (subst bit_length.simps) simp
    then have e: "2 ^ bit_length (n div 2) = 2 * (2::nat) ^ (bit_length (n div 2) - 1)"
      by (cases "bit_length (n div 2)") simp_all
    have "2 ^ bit_length (n div 2) \<le> 2 * (n div 2)" using ih(1) unfolding e by simp
    also have "\<dots> \<le> n" by simp
    finally have a: "2 ^ (bit_length n - 1) \<le> n" by (simp add: bl)
    have "n < 2 * (n div 2) + 2" by arith
    also have "\<dots> \<le> 2 * 2 ^ bit_length (n div 2)" using ih(2) by simp
    finally have b: "n < 2 ^ bit_length n" by (simp add: bl)
    from a b show ?thesis ..
  qed
qed

lemma bit_length_pos: "0 < n \<Longrightarrow> 0 < bit_length n"
  by (subst bit_length.simps) simp

lemma binade_bounds:
  assumes "x \<noteq> 0"
  shows "2 powi binade x \<le> \<bar>x\<bar>" and "\<bar>x\<bar> < 2 powi (binade x + 1)"
proof -
  have "2 powi binade x \<le> \<bar>x\<bar> \<and> \<bar>x\<bar> < 2 powi (binade x + 1)"
  proof (cases "1 \<le> \<bar>x\<bar>")
    case True
    let ?f = "nat \<lfloor>\<bar>x\<bar>\<rfloor>"
    have fpos: "0 < ?f" using True by simp
    have b: "binade x = int (bit_length ?f) - 1" using True by (simp add: binade_def)
    from bit_length_bounds [OF fpos] have lo: "2 ^ (bit_length ?f - 1) \<le> ?f"
      and hi: "?f < 2 ^ bit_length ?f" by simp_all
    from bit_length_pos [OF fpos] have bp: "0 < bit_length ?f" .
    have e1: "(2::real) powi binade x = 2 ^ (bit_length ?f - 1)"
      using bp by (simp add: b power_int_def nat_diff_distrib)
    have e2: "(2::real) powi (binade x + 1) = 2 ^ bit_length ?f"
      by (simp add: b)
    have "real (2 ^ (bit_length ?f - 1)) \<le> real ?f" using lo by (simp only: of_nat_le_iff)
    also have "real ?f \<le> \<bar>x\<bar>" using True by simp
    finally have A: "2 powi binade x \<le> \<bar>x\<bar>" by (simp add: e1)
    have "\<bar>x\<bar> < real_of_int \<lfloor>\<bar>x\<bar>\<rfloor> + 1" by linarith
    also have "\<dots> = real ?f + 1" using True by simp
    also have "\<dots> \<le> real (2 ^ bit_length ?f)"
    proof -
      from hi have "?f + 1 \<le> 2 ^ bit_length ?f" by linarith
      then have "real (?f + 1) \<le> real (2 ^ bit_length ?f)" by (simp only: of_nat_le_iff)
      then show ?thesis by simp
    qed
    finally have B: "\<bar>x\<bar> < 2 powi (binade x + 1)" by (simp add: e2)
    from A B show ?thesis ..
  next
    case False
    let ?z = "1 / \<bar>x\<bar>"
    let ?c = "\<lceil>?z\<rceil>"
    let ?n = "nat (?c - 1)"
    have xpos: "0 < \<bar>x\<bar>" using assms by simp
    have z1: "1 < ?z" using False xpos by simp
    then have c2: "2 \<le> ?c" by linarith
    then have npos: "0 < ?n" by simp
    have b: "binade x = - int (bit_length ?n)" using False by (simp add: binade_def)
    have rn: "real ?n = real_of_int ?c - 1"
    proof -
      from c2 have "0 \<le> ?c - 1" by linarith
      then have "real ?n = real_of_int (?c - 1)" by (rule of_nat_nat)
      then show ?thesis by (simp only: of_int_diff of_int_1)
    qed
    from bit_length_bounds [OF npos] have lo: "2 ^ (bit_length ?n - 1) \<le> ?n"
      and hi: "?n < 2 ^ bit_length ?n" by simp_all
    from bit_length_pos [OF npos] have bp: "0 < bit_length ?n" .
    have e1: "(2::real) powi binade x = 1 / 2 ^ bit_length ?n"
      by (simp add: b power_int_minus_divide)
    have e2: "(2::real) powi (binade x + 1) = 1 / 2 ^ (bit_length ?n - 1)"
    proof -
      have "binade x + 1 = - int (bit_length ?n - 1)" using bp by (simp add: b)
      then show ?thesis by (simp only: power_int_minus_divide power_int_of_nat)
    qed
    have "?z \<le> real_of_int ?c" by linarith
    also have "\<dots> = real ?n + 1" by (simp only: rn)
    also have "\<dots> \<le> real (2 ^ bit_length ?n)"
    proof -
      from hi have "?n + 1 \<le> 2 ^ bit_length ?n" by linarith
      then have "real (?n + 1) \<le> real (2 ^ bit_length ?n)" by (simp only: of_nat_le_iff)
      then show ?thesis by simp
    qed
    finally have "?z \<le> 2 ^ bit_length ?n" by simp
    then have "1 / 2 ^ bit_length ?n \<le> \<bar>x\<bar>"
      using xpos by (simp add: field_simps)
    then have A: "2 powi binade x \<le> \<bar>x\<bar>" by (simp only: e1)
    have "real (2 ^ (bit_length ?n - 1)) \<le> real ?n" using lo by (simp only: of_nat_le_iff)
    also have "real ?n = real_of_int ?c - 1" by (rule rn)
    also have "\<dots> < ?z" by linarith
    finally have "2 ^ (bit_length ?n - 1) < ?z" by simp
    then have "\<bar>x\<bar> < 1 / 2 ^ (bit_length ?n - 1)"
      using xpos by (simp add: field_simps)
    then have B: "\<bar>x\<bar> < 2 powi (binade x + 1)" by (simp only: e2)
    from A B show ?thesis ..
  qed
  then show "2 powi binade x \<le> \<bar>x\<bar>" and "\<bar>x\<bar> < 2 powi (binade x + 1)" by simp_all
qed

lemma round_even_cases:
  "round_even y = \<lfloor>y\<rfloor> \<and> y - of_int \<lfloor>y\<rfloor> \<le> 1 / 2
   \<or> round_even y = \<lfloor>y\<rfloor> + 1 \<and> y - of_int \<lfloor>y\<rfloor> \<ge> 1 / 2"
  by (simp add: round_even_def Let_def)

lemma round_even_err: "\<bar>of_int (round_even y) - y\<bar> \<le> 1 / 2"
  using round_even_cases [of y] by (elim disjE conjE) (simp; linarith)+

lemma round_even_of_int: "round_even (of_int k) = k"
  by (simp add: round_even_def)

lemma round_even_nonpos: "y \<le> 0 \<Longrightarrow> round_even y \<le> 0"
  using round_even_cases [of y] by (elim disjE conjE) (simp; linarith)+

lemma round_even_nonneg: "0 \<le> y \<Longrightarrow> 0 \<le> round_even y"
  using round_even_cases [of y] by (elim disjE conjE) (simp; linarith)+


lemma two_powi_less_D: "(2::real) powi m < 2 powi n \<Longrightarrow> m < n"
proof (rule ccontr)
  assume a: "(2::real) powi m < 2 powi n" and "\<not> m < n"
  then have "n \<le> m" by simp
  then have "(2::real) powi n \<le> 2 powi m" by (rule power_int_increasing) simp
  with a show False by simp
qed

lemma rnd_0: "rnd 0 = 0"
  by (simp add: rnd_def)

lemma ulp_exp_normal:
  assumes "2 powi (- 1022) \<le> \<bar>x\<bar>"
  shows "ulp_exp x = binade x - 52"
proof -
  have pos: "(0::real) < 2 powi (- 1022)" by (simp add: power_int_def)
  with assms have x0: "x \<noteq> 0" by auto
  have "2 powi (- 1022) < (2::real) powi (binade x + 1)"
    using assms binade_bounds(2) [OF x0] by linarith
  then have "- 1022 < binade x + 1" by (rule two_powi_less_D)
  then show ?thesis by (simp add: ulp_exp_def)
qed

lemma rnd_err_ulp:
  assumes "x \<noteq> 0"
  shows "\<bar>rnd x - x\<bar> \<le> 2 powi ulp_exp x / 2"
proof -
  let ?u = "(2::real) powi ulp_exp x"
  have u: "0 < ?u" by (simp add: zero_less_power_int)
  have "rnd x - x = (of_int (round_even (x / ?u)) - x / ?u) * ?u"
    using u assms by (simp add: rnd_def field_simps)
  then have "\<bar>rnd x - x\<bar> = \<bar>of_int (round_even (x / ?u)) - x / ?u\<bar> * ?u"
    using u by (simp add: abs_mult)
  also have "\<dots> \<le> 1 / 2 * ?u"
    using u round_even_err [of "x / ?u"] by (intro mult_right_mono) simp_all
  finally show ?thesis by simp
qed

lemma rnd_rel_err:
  assumes "2 powi (- 1022) \<le> \<bar>x\<bar>"
  shows "\<bar>rnd x - x\<bar> \<le> \<bar>x\<bar> / 2 ^ 53"
proof -
  have pos: "(0::real) < 2 powi (- 1022)" by (simp add: power_int_def)
  with assms have x0: "x \<noteq> 0" by auto
  have e: "ulp_exp x = binade x - 52" using assms by (rule ulp_exp_normal)
  have "(2::real) powi (binade x - 52) = 2 powi binade x / 2 ^ 52"
    by (simp add: power_int_diff)
  also have "\<dots> \<le> \<bar>x\<bar> / 2 ^ 52"
    using binade_bounds(1) [OF x0] by (simp add: divide_right_mono)
  finally have "2 powi ulp_exp x / 2 \<le> \<bar>x\<bar> / 2 ^ 52 / 2" by (simp add: e)
  with rnd_err_ulp [OF x0] have "\<bar>rnd x - x\<bar> \<le> \<bar>x\<bar> / 2 ^ 52 / 2" by linarith
  then show ?thesis by simp
qed

lemma rnd_of_int:
  assumes "\<bar>k\<bar> < 2 ^ 53"
  shows "rnd (of_int k) = of_int k"
proof (cases "k = 0")
  case True
  then show ?thesis by (simp add: rnd_0)
next
  case False
  let ?x = "real_of_int k"
  have x0: "?x \<noteq> 0" using False by simp
  have x1: "1 \<le> \<bar>?x\<bar>" using False by (simp flip: of_int_abs)
  have xb: "\<bar>?x\<bar> < 2 powi 53"
  proof -
    have "real_of_int \<bar>k\<bar> < real_of_int (2 ^ 53)" using assms by (simp only: of_int_less_iff)
    then show ?thesis by simp
  qed
  have "(2::real) powi binade ?x < 2 powi 53"
    using binade_bounds(1) [OF x0] xb by linarith
  then have hi: "binade ?x < 53" by (rule two_powi_less_D)
  have "(2::real) powi 0 < 2 powi (binade ?x + 1)"
    using binade_bounds(2) [OF x0] x1 by simp
  then have "0 < binade ?x + 1" by (rule two_powi_less_D)
  then have lo: "0 \<le> binade ?x" by simp
  define d where "d = nat (52 - binade ?x)"
  have ue: "ulp_exp ?x = - int d" using hi lo by (simp add: ulp_exp_def d_def)
  have u: "(2::real) powi ulp_exp ?x = 1 / 2 ^ d"
    by (simp only: ue power_int_minus_divide power_int_of_nat)
  have q: "?x / (1 / 2 ^ d) = real_of_int (k * 2 ^ d)" by simp
  show ?thesis
    using x0 by (simp only: rnd_def u q round_even_of_int if_False) simp
qed

lemma rnd_nonneg: "0 \<le> x \<Longrightarrow> 0 \<le> rnd x"
  by (simp add: rnd_def round_even_nonneg zero_less_power_int less_imp_le)

lemma rnd_nonpos: "x \<le> 0 \<Longrightarrow> rnd x \<le> 0"
proof -
  assume x: "x \<le> 0"
  have "x / 2 powi ulp_exp x \<le> 0"
    using x by (simp add: divide_nonpos_pos zero_less_power_int)
  then have "round_even (x / 2 powi ulp_exp x) \<le> 0" by (rule round_even_nonpos)
  then have "real_of_int (round_even (x / 2 powi ulp_exp x)) * 2 powi ulp_exp x \<le> 0"
    by (simp add: mult_nonpos_nonneg zero_less_power_int less_imp_le)
  then show ?thesis by (simp add: rnd_def)
qed

lemma fl_Fin: "\<bar>rnd x\<bar> < 2 ^ 1024 \<Longrightarrow> fl x = Fin (rnd x)"
  by (simp add: fl_def Let_def abs_less_iff not_le)

lemma fl_of_int: "\<bar>k\<bar> < 2 ^ 53 \<Longrightarrow> fl (of_int k) = Fin (of_int k)"
proof -
  assume k: "\<bar>k\<bar> < 2 ^ 53"
  have "real_of_int \<bar>k\<bar> < real_of_int (2 ^ 53)" using k by (simp only: of_int_less_iff)
  then have "\<bar>real_of_int k\<bar> < 2 ^ 53" by simp
  also have "\<dots> < (2::real) ^ 1024" by (rule power_strict_increasing) simp_all
  finally have "\<bar>rnd (real_of_int k)\<bar> < 2 ^ 1024" by (simp only: rnd_of_int [OF k])
  then show ?thesis by (simp only: fl_Fin rnd_of_int [OF k])
qed

lemma rnd_eval:
  assumes "x \<noteq> 0" and "binade x = e" and "- 1022 \<le> e"
    and "round_even (x / 2 powi (e - 52)) = m"
  shows "rnd x = of_int m * 2 powi (e - 52)"
proof -
  have "ulp_exp x = e - 52" using assms(2,3) by (simp add: ulp_exp_def)
  then show ?thesis using assms(1,4) by (simp add: rnd_def)
qed

lemma num_of_int: "\<bar>k\<bar> < 2 ^ 53 \<Longrightarrow> num k = Fin (of_int k)"
  by (simp only: num_def fl_of_int)

lemma num_numerals:
  "num 0 = Fin 0" "num 1 = Fin 1" "num 4 = Fin 4" "num 100 = Fin 100"
  using num_of_int [of 0] num_of_int [of 1] num_of_int [of 4] num_of_int [of 100] by simp_all

lemma rnd_abs_le:
  assumes "2 powi (- 1022) \<le> \<bar>x\<bar>"
  shows "\<bar>rnd x\<bar> \<le> 2 * \<bar>x\<bar>"
proof -
  have "\<bar>x\<bar> / 2 ^ 53 \<le> \<bar>x\<bar>" by (simp add: divide_le_eq)
  with rnd_rel_err [OF assms] show ?thesis by linarith
qed

lemma fl_normal:
  assumes "2 powi (- 1022) \<le> \<bar>x\<bar>" and "\<bar>x\<bar> \<le> 2 ^ 1000"
  shows "fl x = Fin (rnd x)"
proof -
  have "\<bar>rnd x\<bar> \<le> 2 * \<bar>x\<bar>" using assms(1) by (rule rnd_abs_le)
  also have "\<dots> \<le> 2 * 2 ^ 1000" using assms(2) by simp
  also have "\<dots> < (2::real) ^ 1024" by simp
  finally show ?thesis by (rule fl_Fin)
qed

section \<open>Simulated live stream: properties\<close>

lemma tick_loc_props:
  assumes "0 \<le> rng (i + 1)" and "rng (i + 1) < 1" and "tick_loc rng i loc = (loc', i')"
  shows "totalVotes loc \<le> totalVotes loc'" and "totalVotes loc' \<le> totalVotes loc + 4"
    and "loc'\<lparr>totalVotes := totalVotes loc\<rparr> = loc"
proof -
  have "0 \<le> \<lfloor>rng (i + 1) * 5\<rfloor>" using assms(1) by simp
  moreover have "\<lfloor>rng (i + 1) * 5\<rfloor> \<le> 4"
  proof -
    have "rng (i + 1) * 5 < 5" using assms(2) by simp
    then have "\<lfloor>rng (i + 1) * 5\<rfloor> < 5" by (simp add: floor_less_iff)
    then show ?thesis by simp
  qed
  ultimately show "totalVotes loc \<le> totalVotes loc'" and "totalVotes loc' \<le> totalVotes loc + 4"
    and "loc'\<lparr>totalVotes := totalVotes loc\<rparr> = loc"
    using assms(3) by (auto simp: tick_loc_def Let_def split: if_splits)
qed

lemma tick_all2:
  assumes "\<forall>n. 0 \<le> rng n \<and> rng n < 1"
  shows "list_all2 only_total_grew prev (tick rng i prev)"
proof (induction prev arbitrary: i)
  case Nil
  show ?case by simp
next
  case (Cons loc prev)
  obtain loc' i' where s: "tick_loc rng i loc = (loc', i')" by (cases "tick_loc rng i loc")
  have r: "0 \<le> rng (i + 1)" "rng (i + 1) < 1" using assms by simp_all
  have "only_total_grew loc loc'"
    unfolding only_total_grew_def using tick_loc_props [OF r s] by simp
  with Cons show ?case by (simp add: s)
qed

lemma only_total_grew_fields:
  assumes "only_total_grew old new"
  shows "location_key new = location_key old" "parties new = parties old"
    "candidates new = candidates old" "winningParty new = winningParty old"
    "lat new = lat old" "lng new = lng old"
proof -
  from assms have e: "new\<lparr>totalVotes := totalVotes old\<rparr> = old"
    by (simp add: only_total_grew_def)
  have "name (new\<lparr>totalVotes := totalVotes old\<rparr>) = name new"
    "parentLocation (new\<lparr>totalVotes := totalVotes old\<rparr>) = parentLocation new"
    "parties (new\<lparr>totalVotes := totalVotes old\<rparr>) = parties new"
    "candidates (new\<lparr>totalVotes := totalVotes old\<rparr>) = candidates new"
    "winningParty (new\<lparr>totalVotes := totalVotes old\<rparr>) = winningParty new"
    "lat (new\<lparr>totalVotes := totalVotes old\<rparr>) = lat new"
    "lng (new\<lparr>totalVotes := totalVotes old\<rparr>) = lng new"
    by simp_all
  then show "location_key new = location_key old" "parties new = parties old"
    "candidates new = candidates old" "winningParty new = winningParty old"
    "lat new = lat old" "lng new = lng old"
    unfolding e location_key_def by simp_all
qed

lemma all2_keys:
  "list_all2 only_total_grew xs ys \<Longrightarrow> map location_key ys = map location_key xs"
  by (induction rule: list_all2_induct) (simp_all add: only_total_grew_fields)

text \<open>
  C6: for every sequence of draws in \<open>[0, 1)\<close> and every position in it, a tick of the
  simulated stream keeps the number and the keys (name, parent location) of the
  locations, never decreases a \<open>totalVotes\<close>, and changes no other field: the party and
  candidate mappings in particular are the same.
\<close>

theorem tick_monotone:
  assumes "\<forall>n. 0 \<le> rng n \<and> rng n < 1"
  shows "length (tick rng i prev) = length prev
    \<and> map location_key (tick rng i prev) = map location_key prev
    \<and> (\<forall>j < length prev.
          totalVotes (prev ! j) \<le> totalVotes (tick rng i prev ! j)
        \<and> (tick rng i prev ! j)\<lparr>totalVotes := totalVotes (prev ! j)\<rparr> = prev ! j
        \<and> parties (tick rng i prev ! j) = parties (prev ! j)
        \<and> candidates (tick rng i prev ! j) = candidates (prev ! j))"
proof -
  have a: "list_all2 only_total_grew prev (tick rng i prev)" using assms by (rule tick_all2)
  then have l: "length (tick rng i prev) = length prev" by (simp add: list_all2_lengthD)
  have k: "map location_key (tick rng i prev) = map location_key prev"
    using a by (rule all2_keys)
  have n: "only_total_grew (prev ! j) (tick rng i prev ! j)" if "j < length prev" for j
    using a that by (rule list_all2_nthD)
  show ?thesis
    using l k n by (auto simp: only_total_grew_fields) (auto simp: only_total_grew_def)
qed

theorem tick_monotone_witness:
  "tick (\<lambda>n. if n = 0 then 9 / 10 else 1 / 2) 0 [station ''A'' 10 [(''VERDE'', 10)] [], station ''B'' 3 [] []]
   = [station ''A'' 12 [(''VERDE'', 10)] [], station ''B'' 3 [] []]
   \<and> totalVotes (station ''A'' 10 [(''VERDE'', 10)] [])
       \<le> totalVotes (tick (\<lambda>n. if n = 0 then 9 / 10 else 1 / 2) 0
            [station ''A'' 10 [(''VERDE'', 10)] [], station ''B'' 3 [] []] ! 0)"
proof -
  let ?rng = "\<lambda>n::nat. if n = 0 then 9 / 10 else (1 / 2 :: real)"
  let ?prev = "[station ''A'' 10 [(''VERDE'', 10)] [], station ''B'' 3 [] []]"
  have h: "\<forall>n. 0 \<le> ?rng n \<and> ?rng n < 1" by simp
  have e: "tick ?rng 0 ?prev = [station ''A'' 12 [(''VERDE'', 10)] [], station ''B'' 3 [] []]"
    by (simp add: tick_loc_def station_def)
  have "totalVotes (?prev ! 0) \<le> totalVotes (tick ?rng 0 ?prev ! 0)"
    by (rule tick_monotone [OF h, of 0 ?prev, THEN conjunct2, THEN conjunct2, rule_format,
          of 0, THEN conjunct1]) simp
  with e show ?thesis by simp
qed

section \<open>Aggregator: properties\<close>

lemma get_or0_absent: "k \<notin> fst ` set t \<Longrightarrow> get_or0 t k = 0"
  by (simp add: get_or0_def map_of_eq_None_iff [THEN iffD2])

lemma get_or0_Cons: "get_or0 ((k', v') # r) k = (if k' = k then v' else get_or0 r k)"
  by (simp add: get_or0_def)

lemma tally_sum_Cons: "tally_sum (e # t) = snd e + tally_sum t"
  by (simp add: tally_sum_def)

lemma tally_sum_js_update:
  "k \<in> fst ` set t \<Longrightarrow> tally_sum (js_update t k x) = tally_sum t - get_or0 t k + x"
proof (induction t)
  case Nil
  then show ?case by simp
next
  case (Cons e t)
  show ?case
  proof (cases "fst e = k")
    case True
    then show ?thesis by (cases e) (simp add: tally_sum_Cons get_or0_Cons)
  next
    case False
    with Cons.prems have "k \<in> fst ` set t" by auto
    then have "tally_sum (js_update t k x) = tally_sum t - get_or0 t k + x" by (rule Cons.IH)
    with False show ?thesis by (cases e) (simp add: tally_sum_Cons get_or0_Cons)
  qed
qed

lemma tally_sum_insert_index: "tally_sum (insert_index k v t) = tally_sum t + v"
  by (induction t) (auto simp: tally_sum_def)

lemma tally_sum_js_set:
  "tally_sum (js_set t k (get_or0 t k + v)) = tally_sum t + v"
  by (simp add: js_set_def tally_sum_js_update tally_sum_insert_index get_or0_absent)
    (simp add: tally_sum_def)

lemma consistent_bump: "consistent ld \<Longrightarrow> consistent (bump r ld)"
  by (simp add: consistent_def bump_def tally_sum_js_set)

lemma totalVotes_bump: "totalVotes (bump r ld) = totalVotes ld + voteCount r"
  by (simp add: bump_def)

lemma consistent_new: "consistent (new_location r)"
  by (simp add: consistent_def new_location_def tally_sum_def)

lemma add_record_consistent:
  "list_all consistent lds \<Longrightarrow> list_all consistent (add_record r lds)"
  by (induction lds) (simp_all add: consistent_bump consistent_new)

lemma add_record_total:
  "sum_list (map totalVotes (add_record r lds)) = sum_list (map totalVotes lds) + voteCount r"
  by (induction lds) (simp_all add: totalVotes_bump new_location_def)

lemma fold_add_record_consistent:
  "list_all consistent lds \<Longrightarrow> list_all consistent (fold add_record records lds)"
  by (induction records arbitrary: lds) (simp_all add: add_record_consistent)

lemma fold_add_record_total:
  "sum_list (map totalVotes (fold add_record records lds))
     = sum_list (map totalVotes lds) + sum_list (map voteCount records)"
  by (induction records arbitrary: lds) (simp_all add: add_record_total)

text \<open>
  C2: every location produced by the aggregator has \<open>totalVotes\<close> equal to the sum of
  its party mapping and to the sum of its candidate mapping, and the totals of the
  output add up to the vote counts of the input.
\<close>

theorem aggregate_totals:
  "(\<forall>ld \<in> set (aggregateByLocation records).
      totalVotes ld = tally_sum (parties ld) \<and> totalVotes ld = tally_sum (candidates ld))
   \<and> sum_list (map totalVotes (aggregateByLocation records)) = sum_list (map voteCount records)"
proof -
  have "list_all consistent (fold add_record records [])"
    by (rule fold_add_record_consistent) simp
  then have a: "\<forall>ld \<in> set (aggregateByLocation records).
      totalVotes ld = tally_sum (parties ld) \<and> totalVotes ld = tally_sum (candidates ld)"
    by (auto simp: aggregateByLocation_def list_all_iff consistent_def)
  have b: "sum_list (map totalVotes (aggregateByLocation records))
      = sum_list (map voteCount records)"
    using fold_add_record_total [of records "[]"]
    by (simp add: aggregateByLocation_def comp_def)
  from a b show ?thesis ..
qed

theorem aggregate_totals_witness:
  "sum_list (map totalVotes (aggregateByLocation
     [vote ''A'' ''VERDE'' ''ana'' 5, vote ''B'' ''LIBERAL'' ''luis'' 2,
      vote ''A'' ''LIBERAL'' ''luis'' 7, vote ''A'' ''VERDE'' ''eva'' 3])) = 17
   \<and> aggregateByLocation
     [vote ''A'' ''VERDE'' ''ana'' 5, vote ''B'' ''LIBERAL'' ''luis'' 2,
      vote ''A'' ''LIBERAL'' ''luis'' 7, vote ''A'' ''VERDE'' ''eva'' 3]
   = [\<lparr>name = ''A'', parentLocation = ''MEDELLIN'', lat = 6.2442, lng = - 75.5812,
       totalVotes = 15, parties = [(''VERDE'', 8), (''LIBERAL'', 7)],
       candidates = [(''ana'', 5), (''luis'', 7), (''eva'', 3)], winningParty = ''VERDE''\<rparr>,
      \<lparr>name = ''B'', parentLocation = ''MEDELLIN'', lat = 6.2442, lng = - 75.5812,
       totalVotes = 2, parties = [(''LIBERAL'', 2)],
       candidates = [(''luis'', 2)], winningParty = ''LIBERAL''\<rparr>]"
proof -
  let ?recs = "[vote ''A'' ''VERDE'' ''ana'' 5, vote ''B'' ''LIBERAL'' ''luis'' 2,
      vote ''A'' ''LIBERAL'' ''luis'' 7, vote ''A'' ''VERDE'' ''eva'' 3]"
  have "sum_list (map totalVotes (aggregateByLocation ?recs)) = sum_list (map voteCount ?recs)"
    by (rule aggregate_totals [of ?recs, THEN conjunct2])
  then have a: "sum_list (map totalVotes (aggregateByLocation ?recs)) = 17"
    by (simp add: vote_def)
  have b: "aggregateByLocation ?recs
   = [\<lparr>name = ''A'', parentLocation = ''MEDELLIN'', lat = 6.2442, lng = - 75.5812,
       totalVotes = 15, parties = [(''VERDE'', 8), (''LIBERAL'', 7)],
       candidates = [(''ana'', 5), (''luis'', 7), (''eva'', 3)], winningParty = ''VERDE''\<rparr>,
      \<lparr>name = ''B'', parentLocation = ''MEDELLIN'', lat = 6.2442, lng = - 75.5812,
       totalVotes = 2, parties = [(''LIBERAL'', 2)],
       candidates = [(''luis'', 2)], winningParty = ''LIBERAL''\<rparr>]"
    by (simp add: aggregateByLocation_def vote_def bump_def new_location_def location_key_def
        js_set_def get_or0_def is_array_index_def is_digit_def)
  from a b show ?thesis ..
qed

section \<open>Classifier: properties\<close>

lemma Math_max2_Fin: "Math_max2 (Fin a) (Fin b) = Fin (max a b)"
  by (simp add: Math_max2_def max_def)

lemma Math_max2_NegInf: "Math_max2 NegInf (Fin b) = Fin b"
  by (simp add: Math_max2_def)

lemma fold_Math_max2:
  "\<forall>k \<in> set ks. \<bar>k\<bar> < 2 ^ 53 \<Longrightarrow>
   fold (\<lambda>x m. Math_max2 m x) (map num ks) (Fin (of_int m)) = Fin (of_int (fold max ks m))"
proof (induction ks arbitrary: m)
  case Nil
  show ?case by simp
next
  case (Cons k ks)
  then have k: "\<bar>k\<bar> < 2 ^ 53" and ks: "\<forall>k \<in> set ks. \<bar>k\<bar> < 2 ^ 53" by simp_all
  have "Math_max2 (Fin (of_int m)) (num k) = Fin (of_int (max k m))"
    by (simp add: num_of_int [OF k] Math_max2_Fin max.commute)
  then show ?case using Cons.IH [OF ks] by simp
qed

lemma max_totals:
  assumes "data \<noteq> []" and "\<forall>d \<in> set data. \<bar>totalVotes d\<bar> < 2 ^ 53"
  shows "fold (\<lambda>x m. Math_max2 m x) (map (\<lambda>d. num (totalVotes d)) data) NegInf
           = Fin (of_int (Max (totalVotes ` set data)))"
proof -
  from assms(1) obtain d ds where data: "data = d # ds" by (cases data) auto
  have d: "\<bar>totalVotes d\<bar> < 2 ^ 53"
    and ds: "\<forall>k \<in> set (map totalVotes ds). \<bar>k\<bar> < 2 ^ 53"
    using assms(2) by (simp_all add: data)
  have m: "map (\<lambda>d. num (totalVotes d)) ds = map num (map totalVotes ds)" by simp
  have "fold (\<lambda>x m. Math_max2 m x) (map (\<lambda>d. num (totalVotes d)) data) NegInf
      = fold (\<lambda>x m. Math_max2 m x) (map num (map totalVotes ds)) (Fin (of_int (totalVotes d)))"
    by (simp only: data list.map fold_simps comp_apply num_of_int [OF d] Math_max2_NegInf m)
  also have "\<dots> = Fin (of_int (fold max (map totalVotes ds) (totalVotes d)))"
    using ds by (rule fold_Math_max2)
  also have "fold max (map totalVotes ds) (totalVotes d) = Max (totalVotes ` set data)"
    by (simp add: data Max.set_eq_fold [symmetric])
  finally show ?thesis .
qed

lemma stats_Inr:
  assumes "data \<noteq> []" and "length data \<le> maxArgs"
  shows "stats maxArgs data =
     Inr \<lparr>max_stat = fold (\<lambda>x m. Math_max2 m x) (map (\<lambda>d. num (totalVotes d)) data) NegInf,
          avg = js_div (fold (\<lambda>c acc. js_add acc (num (totalVotes c))) data (num 0))
                  (num (int (length data)))\<rparr>"
  using assms by (simp add: stats_def Math_max_def)

lemma stats_max:
  assumes "data \<noteq> []" and "length data \<le> maxArgs"
    and "\<forall>d \<in> set data. \<bar>totalVotes d\<bar> < 2 ^ 53"
  shows "\<exists>st. stats maxArgs data = Inr st
           \<and> max_stat st = Fin (of_int (Max (totalVotes ` set data)))"
  by (simp add: stats_Inr [OF assms(1,2)] max_totals [OF assms(1,3)])

lemma VoteMap_Inr:
  assumes "data \<noteq> []" and "length data \<le> maxArgs"
  shows "VoteMap maxArgs data viewMode =
     Inr (map (getVisuals
            \<lparr>max_stat = fold (\<lambda>x m. Math_max2 m x) (map (\<lambda>d. num (totalVotes d)) data) NegInf,
             avg = js_div (fold (\<lambda>c acc. js_add acc (num (totalVotes c))) data (num 0))
                     (num (int (length data)))\<rparr> viewMode) data)"
  by (simp add: VoteMap_def stats_Inr [OF assms])

lemma VoteMap_RangeError:
  "maxArgs < length data \<Longrightarrow> VoteMap maxArgs data viewMode = Inl RangeError"
  by (auto simp: VoteMap_def stats_def Math_max_def)

lemma party_visuals:
  "getVisuals st Party loc =
     \<lparr>radius = Fin 8,
      color =
        (if sublist ''CENTRO'' (winningParty loc) then ''#0ea5e9''
         else if sublist (''HIST'' @ [CHR 0xC3, CHR 0x93] @ ''RICO'') (winningParty loc)
           then ''#9333ea''
         else if sublist ''LIBERAL'' (winningParty loc) then ''#ef4444''
         else if sublist ''CONSERVADOR'' (winningParty loc) then ''#1d4ed8''
         else if sublist ''VERDE'' (winningParty loc) then ''#22c55e''
         else ''#64748b''),
      opacity = 0.8, stroke = False\<rparr>"
proof (cases "winningParty loc = []")
  case True
  then show ?thesis
    by (simp add: getVisuals_def partyColor_def PARTY_COLORS_def token_def str_includes_def
        sublist_code Let_def)
next
  case False
  then show ?thesis
    by (simp add: getVisuals_def partyColor_def PARTY_COLORS_def token_def str_includes_def
        Let_def)
qed

text \<open>
  C8: in the party view every location has radius 8, opacity 0.8 (above the 0.6 of the
  heat view) and no stroke, whatever the statistics of the visible set; its colour is
  that of the first entry of the colour table, in table order, whose token (the second
  word of the party name: CENTRO, HISTORICO with its accented O, LIBERAL, CONSERVADOR,
  VERDE) is contained in \<open>winningParty\<close>, and the default colour \<open>#64748b\<close> when no token
  is contained.
\<close>

theorem party_colors:
  "getVisuals st Party loc =
     \<lparr>radius = Fin 8,
      color =
        (if sublist ''CENTRO'' (winningParty loc) then ''#0ea5e9''
         else if sublist (''HIST'' @ [CHR 0xC3, CHR 0x93] @ ''RICO'') (winningParty loc)
           then ''#9333ea''
         else if sublist ''LIBERAL'' (winningParty loc) then ''#ef4444''
         else if sublist ''CONSERVADOR'' (winningParty loc) then ''#1d4ed8''
         else if sublist ''VERDE'' (winningParty loc) then ''#22c55e''
         else ''#64748b''),
      opacity = 0.8, stroke = False\<rparr>
   \<and> opacity (getVisuals st Party loc) > opacity (getVisuals st Heatmap loc)
   \<and> map token (map fst PARTY_COLORS) =
       [''CENTRO'', ''HIST'' @ [CHR 0xC3, CHR 0x93] @ ''RICO'', ''LIBERAL'', ''CONSERVADOR'',
        ''VERDE'', ''undefined'']"
proof (intro conjI)
  show "opacity (getVisuals st Party loc) > opacity (getVisuals st Heatmap loc)"
    by (simp add: getVisuals_def)
  show "map token (map fst PARTY_COLORS) =
       [''CENTRO'', ''HIST'' @ [CHR 0xC3, CHR 0x93] @ ''RICO'', ''LIBERAL'', ''CONSERVADOR'',
        ''VERDE'', ''undefined'']"
    by (simp add: PARTY_COLORS_def token_def)
qed (rule party_visuals)

theorem party_colors_witness:
  "map (\<lambda>l. color (getVisuals \<lparr>max_stat = Fin 7, avg = Fin 4\<rparr> Party l))
     [station ''A'' 7 [(''PARTIDO LIBERAL'', 7)] [],
      station ''B'' 5 [(''MOVIMIENTO ALIANZA VERDE'', 5)] [],
      station ''C'' 5 [(''MIRA'', 5)] [],
      station ''D'' 0 [] []]
   = [''#ef4444'', ''#22c55e'', ''#64748b'', ''#64748b'']"
  using party_colors [of "\<lparr>max_stat = Fin 7, avg = Fin 4\<rparr>"
      "station ''A'' 7 [(''PARTIDO LIBERAL'', 7)] []"]
    party_colors [of "\<lparr>max_stat = Fin 7, avg = Fin 4\<rparr>"
      "station ''B'' 5 [(''MOVIMIENTO ALIANZA VERDE'', 5)] []"]
    party_colors [of "\<lparr>max_stat = Fin 7, avg = Fin 4\<rparr>"
      "station ''C'' 5 [(''MIRA'', 5)] []"]
    party_colors [of "\<lparr>max_stat = Fin 7, avg = Fin 4\<rparr>" "station ''D'' 0 [] []"]
  by (simp add: station_def sublist_code)

lemma heat_radius_zero:
  "js_add (num 4) (js_mul (Math_sqrt (num 0)) (Fin (lit 0.8))) = Fin 4"
proof -
  have a: "fl 0 = Fin 0" using fl_of_int [of 0] by simp
  have b: "fl 4 = Fin 4" using fl_of_int [of 4] by simp
  show ?thesis by (simp add: num_numerals a b)
qed

lemma heatColor_NaN: "heatColor (Math_min NaN y) = ''#fbbf24''"
  by (simp add: heatColor_def Math_min_def)

lemma heat_visuals:
  "getVisuals st Heatmap loc =
     \<lparr>radius = js_add (num 4) (js_mul (Math_sqrt (num (totalVotes loc))) (Fin (lit 0.8))),
      color = heatColor (Math_min (js_div (num (totalVotes loc)) (max_stat st)) (num 1)),
      opacity = 0.6, stroke = False\<rparr>"
  by (simp add: getVisuals_def)

text \<open>
  C10: the claim as stated fails on a large visible set.  \<^verbatim>\<open>stats\<close> spreads the whole set
  into one call of \<^verbatim>\<open>Math.max\<close>; a set with more locations than the engine takes
  arguments makes that call throw, whatever the totals, and no marker is returned.
\<close>

theorem heat_all_zero_counterexample:
  "totalVotes (station ''A'' 0 [] []) = 0
   \<and> length (replicate 130000 (station ''A'' 0 [] [])) = 130000
   \<and> VoteMap 125000 (replicate 130000 (station ''A'' 0 [] [])) Heatmap = Inl RangeError"
  by (simp add: VoteMap_RangeError station_def)

text \<open>
  C10, amended: when every location of a non-empty visible set has \<open>totalVotes = 0\<close> and
  the set has no more locations than \<^verbatim>\<open>Math.max\<close> takes arguments, \<^verbatim>\<open>stats\<close> returns, the
  ratio of the heat view is \<open>0 / 0 = NaN\<close>, every comparison with it is false, and each
  location is drawn with the lightest colour, radius 4 and opacity 0.6.
\<close>

theorem heat_all_zero:
  assumes "loc \<in> set data" and "\<forall>d \<in> set data. totalVotes d = 0"
    and "length data \<le> maxArgs"
  shows "\<exists>st. stats maxArgs data = Inr st
    \<and> js_div (num (totalVotes loc)) (max_stat st) = NaN
    \<and> getVisuals st Heatmap loc =
        \<lparr>radius = Fin 4, color = ''#fbbf24'', opacity = 0.6, stroke = False\<rparr>"
proof -
  from assms(1) have ne: "data \<noteq> []" by auto
  have b: "\<forall>d \<in> set data. \<bar>totalVotes d\<bar> < 2 ^ 53" using assms(2) by simp
  have img: "totalVotes ` set data = {0}" using assms(1,2) by auto
  from stats_max [OF ne assms(3) b] obtain st where st: "stats maxArgs data = Inr st"
    and m: "max_stat st = Fin 0" by (auto simp: img)
  have t: "totalVotes loc = 0" using assms(1,2) by simp
  have d: "js_div (num (totalVotes loc)) (max_stat st) = NaN"
    by (simp add: t m num_numerals)
  have r: "js_add (num 4) (js_mul (Math_sqrt (num (totalVotes loc))) (Fin (lit 0.8))) = Fin 4"
    unfolding t by (rule heat_radius_zero)
  have "getVisuals st Heatmap loc =
        \<lparr>radius = Fin 4, color = ''#fbbf24'', opacity = 0.6, stroke = False\<rparr>"
    by (simp only: heat_visuals d r heatColor_NaN)
  with st d show ?thesis by blast
qed

theorem heat_all_zero_witness:
  "\<exists>st. stats 2 [station ''A'' 0 [] [], station ''B'' 0 [] []] = Inr st
     \<and> js_div (num (totalVotes (station ''B'' 0 [] []))) (max_stat st) = NaN
     \<and> getVisuals st Heatmap (station ''B'' 0 [] [])
        = \<lparr>radius = Fin 4, color = ''#fbbf24'', opacity = 0.6, stroke = False\<rparr>"
proof -
  let ?data = "[station ''A'' 0 [] [], station ''B'' 0 [] []]"
  have h: "station ''B'' 0 [] [] \<in> set ?data" by simp
  have z: "\<forall>d \<in> set ?data. totalVotes d = 0" by (simp add: station_def)
  have len: "length ?data \<le> 2" by simp
  from heat_all_zero [OF h z len] show ?thesis .
qed

lemma tiny_le: "(2::real) powi (- 1022) \<le> 1 / 2 ^ 49"
proof -
  have "(2::real) ^ 49 \<le> 2 ^ 1022" by (rule power_increasing) simp_all
  then have "1 / (2::real) ^ 1022 \<le> 1 / 2 ^ 49" by (simp add: frac_le)
  then show ?thesis by (simp only: power_int_minus_divide power_int_numeral)
qed

lemma rnd_gap:
  assumes "2 powi (- 1022) \<le> \<bar>x\<bar>" and "2 powi (- 1022) \<le> \<bar>c\<bar>"
    and "\<bar>x\<bar> \<le> 1" and "\<bar>c\<bar> \<le> 1" and "2 / 2 ^ 53 < x - c"
  shows "rnd c < rnd x"
proof -
  have ex: "\<bar>rnd x - x\<bar> \<le> \<bar>x\<bar> / 2 ^ 53" using assms(1) by (rule rnd_rel_err)
  have ec: "\<bar>rnd c - c\<bar> \<le> \<bar>c\<bar> / 2 ^ 53" using assms(2) by (rule rnd_rel_err)
  have bx: "\<bar>x\<bar> / 2 ^ 53 \<le> 1 / 2 ^ 53" using assms(3) by (simp add: divide_right_mono)
  have bc: "\<bar>c\<bar> / 2 ^ 53 \<le> 1 / 2 ^ 53" using assms(4) by (simp add: divide_right_mono)
  have "(2::real) / 2 ^ 53 = 1 / 2 ^ 53 + 1 / 2 ^ 53" by simp
  with ex ec bx bc assms(5) show ?thesis by linarith
qed

lemma ratio_gap:
  fixes t m k :: int
  assumes "0 < m" and "m < 2 ^ 49" and "real_of_int k / 5 < real_of_int t / real_of_int m"
  shows "2 / 2 ^ 53 < real_of_int t / real_of_int m - real_of_int k / 5"
proof -
  have mpos: "0 < real_of_int m" using assms(1) by simp
  have "real_of_int k * real_of_int m < real_of_int t * 5"
    using assms(3) mpos by (simp add: field_simps)
  then have "real_of_int (k * m) < real_of_int (t * 5)" by simp
  then have "k * m < t * 5" by (simp only: of_int_less_iff)
  then have "1 \<le> t * 5 - k * m" by simp
  then have "real_of_int 1 \<le> real_of_int (t * 5 - k * m)" by (simp only: of_int_le_iff)
  then have one: "1 \<le> real_of_int t * 5 - real_of_int k * real_of_int m" by simp
  have eq: "real_of_int t / real_of_int m - real_of_int k / 5
      = (real_of_int t * 5 - real_of_int k * real_of_int m) / (5 * real_of_int m)"
    using mpos by (simp add: field_simps)
  have "1 / (5 * real_of_int m) \<le> (real_of_int t * 5 - real_of_int k * real_of_int m) / (5 * real_of_int m)"
    using one mpos by (intro divide_right_mono) simp_all
  moreover have "2 / 2 ^ 53 < 1 / (5 * real_of_int m)"
  proof -
    have "real_of_int m < real_of_int (2 ^ 49)" using assms(2) by (simp only: of_int_less_iff)
    then have "real_of_int m < 2 ^ 49" by simp
    then have "2 * (5 * real_of_int m) < 10 * 2 ^ 49" by simp
    also have "\<dots> < (2::real) ^ 53" by simp
    finally have "2 * (5 * real_of_int m) < 1 * 2 ^ 53" by simp
    then show ?thesis using mpos by (simp only: frac_less_eq) (simp add: field_simps)
  qed
  ultimately show ?thesis unfolding eq by linarith
qed

lemma ratio_gap_below:
  fixes t m k :: int
  assumes "0 < m" and "m < 2 ^ 49" and "real_of_int t / real_of_int m < real_of_int k / 5"
  shows "2 / 2 ^ 53 < real_of_int k / 5 - real_of_int t / real_of_int m"
proof -
  have mpos: "0 < real_of_int m" using assms(1) by simp
  have "real_of_int t * 5 < real_of_int k * real_of_int m"
    using assms(3) mpos by (simp add: field_simps)
  then have "real_of_int (t * 5) < real_of_int (k * m)" by simp
  then have "t * 5 < k * m" by (simp only: of_int_less_iff)
  then have "1 \<le> k * m - t * 5" by simp
  then have "real_of_int 1 \<le> real_of_int (k * m - t * 5)" by (simp only: of_int_le_iff)
  then have one: "1 \<le> real_of_int k * real_of_int m - real_of_int t * 5" by simp
  have eq: "real_of_int k / 5 - real_of_int t / real_of_int m
      = (real_of_int k * real_of_int m - real_of_int t * 5) / (5 * real_of_int m)"
    using mpos by (simp add: field_simps)
  have "1 / (5 * real_of_int m) \<le> (real_of_int k * real_of_int m - real_of_int t * 5) / (5 * real_of_int m)"
    using one mpos by (intro divide_right_mono) simp_all
  moreover have "2 / 2 ^ 53 < 1 / (5 * real_of_int m)"
  proof -
    have "real_of_int m < real_of_int (2 ^ 49)" using assms(2) by (simp only: of_int_less_iff)
    then have "real_of_int m < 2 ^ 49" by simp
    then have "2 * (5 * real_of_int m) < 10 * 2 ^ 49" by simp
    also have "\<dots> < (2::real) ^ 53" by simp
    finally have "2 * (5 * real_of_int m) < 1 * 2 ^ 53" by simp
    then show ?thesis using mpos by (simp only: frac_less_eq) (simp add: field_simps)
  qed
  ultimately show ?thesis unfolding eq by linarith
qed

lemma real_bound_49: "\<bar>t\<bar> < 2 ^ 49 \<Longrightarrow> \<bar>real_of_int t\<bar> < 2 ^ 49" for t :: int
proof -
  assume "\<bar>t\<bar> < 2 ^ 49"
  then have "real_of_int \<bar>t\<bar> < real_of_int (2 ^ 49)" by (simp only: of_int_less_iff)
  then show ?thesis by simp
qed

lemma num_49: "\<bar>t\<bar> < 2 ^ 49 \<Longrightarrow> num t = Fin (of_int t)"
proof -
  assume "\<bar>t\<bar> < 2 ^ 49"
  also have "(2::int) ^ 49 < 2 ^ 53" by simp
  finally show ?thesis by (rule num_of_int)
qed

lemma ratio_normal:
  fixes t m :: int
  assumes "t \<noteq> 0" and "m \<noteq> 0" and "\<bar>t\<bar> < 2 ^ 49" and "\<bar>m\<bar> < 2 ^ 49"
  shows "2 powi (- 1022) \<le> \<bar>real_of_int t / real_of_int m\<bar>"
    and "\<bar>real_of_int t / real_of_int m\<bar> \<le> 2 ^ 1000"
proof -
  let ?x = "real_of_int t / real_of_int m"
  have t1: "1 \<le> \<bar>real_of_int t\<bar>" using assms(1) by (simp flip: of_int_abs)
  have m1: "1 \<le> \<bar>real_of_int m\<bar>" using assms(2) by (simp flip: of_int_abs)
  have tb: "\<bar>real_of_int t\<bar> < 2 ^ 49" using assms(3) by (rule real_bound_49)
  have mb: "\<bar>real_of_int m\<bar> < 2 ^ 49" using assms(4) by (rule real_bound_49)
  have ax: "\<bar>?x\<bar> = \<bar>real_of_int t\<bar> / \<bar>real_of_int m\<bar>" by (simp add: abs_divide)
  have "1 / 2 ^ 49 \<le> 1 / \<bar>real_of_int m\<bar>" using m1 mb by (intro frac_le) simp_all
  also have "\<dots> \<le> \<bar>real_of_int t\<bar> / \<bar>real_of_int m\<bar>" using t1 m1 by (intro divide_right_mono) simp_all
  finally have "1 / 2 ^ 49 \<le> \<bar>?x\<bar>" by (simp only: ax)
  with tiny_le show "2 powi (- 1022) \<le> \<bar>?x\<bar>" by linarith
  have "\<bar>real_of_int t\<bar> / \<bar>real_of_int m\<bar> \<le> \<bar>real_of_int t\<bar> / 1" using m1 by (intro divide_left_mono) simp_all
  then have "\<bar>?x\<bar> \<le> \<bar>real_of_int t\<bar>" by (simp only: ax div_by_1)
  also have "\<dots> \<le> 2 ^ 49" using tb by simp
  also have "\<dots> \<le> (2::real) ^ 1000" by (rule power_increasing) simp_all
  finally show "\<bar>?x\<bar> \<le> 2 ^ 1000" .
qed

lemma intensity_Fin:
  fixes t m :: int
  assumes "m \<noteq> 0" and "\<bar>t\<bar> < 2 ^ 49" and "\<bar>m\<bar> < 2 ^ 49"
  shows "js_div (num t) (num m) = Fin (rnd (real_of_int t / real_of_int m))"
proof (cases "t = 0")
  case True
  have "fl 0 = Fin 0" using fl_of_int [of 0] by simp
  then show ?thesis using assms(1) by (simp add: True num_49 [OF assms(3)] num_numerals rnd_0)
next
  case False
  have "fl (real_of_int t / real_of_int m) = Fin (rnd (real_of_int t / real_of_int m))"
    using ratio_normal [OF False assms] by (rule fl_normal)
  then show ?thesis using assms(1) by (simp add: num_49 [OF assms(2)] num_49 [OF assms(3)])
qed

lemma threshold_bounds:
  fixes k :: int
  assumes "0 < k" and "k < 5"
  shows "0 < rnd (real_of_int k / 5)" and "rnd (real_of_int k / 5) \<le> 4 / 5 + 1 / 2 ^ 53"
    and "2 powi (- 1022) \<le> \<bar>real_of_int k / 5\<bar>" and "\<bar>real_of_int k / 5\<bar> \<le> 1"
proof -
  let ?c = "real_of_int k / 5"
  have k1: "1 \<le> real_of_int k" using assms(1) by simp
  have k4: "real_of_int k \<le> 4" using assms(2) by simp
  have lo: "1 / 5 \<le> ?c" using k1 by simp
  have hi: "?c \<le> 4 / 5" using k4 by simp
  have "(1::real) / 2 ^ 49 \<le> 1 / 5" by simp
  with tiny_le lo have n: "2 powi (- 1022) \<le> \<bar>?c\<bar>" by linarith
  then show "2 powi (- 1022) \<le> \<bar>?c\<bar>" .
  show "\<bar>?c\<bar> \<le> 1" using lo hi by simp
  have e: "\<bar>rnd ?c - ?c\<bar> \<le> \<bar>?c\<bar> / 2 ^ 53" using n by (rule rnd_rel_err)
  have b: "\<bar>?c\<bar> / 2 ^ 53 \<le> 1 / 2 ^ 53" using lo hi by (simp add: divide_right_mono)
  have s: "(1::real) / 2 ^ 53 < 1 / 5" by simp
  from e b lo s show "0 < rnd ?c" by linarith
  from e b hi show "rnd ?c \<le> 4 / 5 + 1 / 2 ^ 53" by linarith
qed

lemma band_test:
  fixes t m k :: int
  assumes "0 < m" and "m < 2 ^ 49" and "\<bar>t\<bar> < 2 ^ 49" and "0 < k" and "k < 5"
  shows "js_greater (Math_min (js_div (num t) (num m)) (num 1)) (Fin (lit (real_of_int k / 5)))
           \<longleftrightarrow> real_of_int k / 5 < real_of_int t / real_of_int m"
proof -
  let ?x = "real_of_int t / real_of_int m"
  let ?c = "real_of_int k / 5"
  have m0: "m \<noteq> 0" and mb: "\<bar>m\<bar> < 2 ^ 49" using assms(1,2) by simp_all
  have mpos: "0 < real_of_int m" using assms(1) by simp
  note tb = threshold_bounds [OF assms(4,5)]
  have c1: "rnd ?c < 1"
  proof -
    have "(4::real) / 5 + 1 / 2 ^ 53 < 1" by simp
    with tb(2) show ?thesis by linarith
  qed
  have cpos: "0 < ?c" using assms(4) by simp
  have I: "js_div (num t) (num m) = Fin (rnd ?x)" using m0 assms(3) mb by (rule intensity_Fin)
  have L: "js_greater (Math_min (js_div (num t) (num m)) (num 1)) (Fin (lit ?c))
      \<longleftrightarrow> rnd ?c < rnd ?x"
    using c1 by (auto simp: I num_numerals Math_min_def lit_def)
  have "rnd ?c < rnd ?x \<longleftrightarrow> ?c < ?x"
  proof (cases "t \<le> 0")
    case True
    then have "?x \<le> 0" using mpos by (simp add: divide_nonpos_pos)
    then have "rnd ?x \<le> 0" and "\<not> ?c < ?x" using cpos by (simp add: rnd_nonpos, linarith)
    with tb(1) show ?thesis by simp
  next
    case False
    then have t0: "t \<noteq> 0" and tpos: "0 < real_of_int t" by simp_all
    have xpos: "0 < ?x" using tpos mpos by simp
    note nx = ratio_normal [OF t0 m0 assms(3) mb]
    have ex: "\<bar>rnd ?x - ?x\<bar> \<le> \<bar>?x\<bar> / 2 ^ 53" using nx(1) by (rule rnd_rel_err)
    show ?thesis
    proof (cases "1 \<le> ?x")
      case True
      have "?x / 2 ^ 53 \<le> ?x / 8" using xpos by (intro divide_left_mono) simp_all
      with ex xpos True have "7 / 8 \<le> rnd ?x" by (simp add: abs_if split: if_splits)
      moreover have "rnd ?c < 7 / 8"
      proof -
        have "(4::real) / 5 + 1 / 2 ^ 53 < 7 / 8" by simp
        with tb(2) show ?thesis by linarith
      qed
      moreover have "?c < ?x"
      proof -
        have "real_of_int k \<le> 4" using assms(5) by simp
        then have "?c \<le> 4 / 5" by simp
        with True show ?thesis by linarith
      qed
      ultimately show ?thesis by simp
    next
      case False
      then have x1: "\<bar>?x\<bar> \<le> 1" using xpos by simp
      consider "?c < ?x" | "?x < ?c" | "?x = ?c" by linarith
      then show ?thesis
      proof cases
        case 1
        then have "2 / 2 ^ 53 < ?x - ?c" by (rule ratio_gap [OF assms(1,2)])
        with nx(1) tb(3) x1 tb(4) have "rnd ?c < rnd ?x" by (rule rnd_gap)
        with 1 show ?thesis by simp
      next
        case 2
        then have "2 / 2 ^ 53 < ?c - ?x" by (rule ratio_gap_below [OF assms(1,2)])
        with tb(3) nx(1) tb(4) x1 have "rnd ?x < rnd ?c" by (rule rnd_gap)
        with 2 show ?thesis by simp
      next
        case 3
        have "\<not> rnd ?c < rnd ?x" and "\<not> ?c < ?x" unfolding 3 by (rule less_irrefl)+
        then show ?thesis by (simp only:)
      qed
    qed
  qed
  with L show ?thesis by simp
qed

lemma rnd_ge_1:
  assumes "1 \<le> x" and "x \<le> 2 ^ 1000"
  shows "7 / 8 \<le> rnd x"
proof -
  have xpos: "0 < x" using assms(1) by simp
  have "(2::real) ^ 1022 \<ge> 1" by simp
  then have "(2::real) powi (- 1022) \<le> 1"
    by (simp only: power_int_minus_divide power_int_numeral) (simp add: field_simps)
  then have "2 powi (- 1022) \<le> \<bar>x\<bar>" using assms(1) by linarith
  then have ex: "\<bar>rnd x - x\<bar> \<le> \<bar>x\<bar> / 2 ^ 53" by (rule rnd_rel_err)
  have "x / 2 ^ 53 \<le> x / 8" using xpos by (intro divide_left_mono) simp_all
  with ex xpos assms(1) show ?thesis by (simp add: abs_if split: if_splits)
qed

lemma lit_08: "0 < lit 0.8" "lit 0.8 < 7 / 8"
proof -
  have a: "real_of_int 4 / 5 = 0.8" by simp
  have "0 < rnd (real_of_int 4 / 5)" by (rule threshold_bounds) simp_all
  then show "0 < lit 0.8" by (simp only: a lit_def)
  have "rnd (real_of_int 4 / 5) \<le> 4 / 5 + 1 / 2 ^ 53" by (rule threshold_bounds) simp_all
  moreover have "(4::real) / 5 + 1 / 2 ^ 53 < 7 / 8" by simp
  ultimately show "lit 0.8 < 7 / 8" by (simp only: a lit_def)
qed

lemma heat_color_pos:
  assumes "0 < m" and "m < 2 ^ 49" and "\<bar>t\<bar> < 2 ^ 49"
  shows "heatColor (Math_min (js_div (num t) (num m)) (num 1))
           = heat_band (real_of_int t / real_of_int m)"
proof -
  let ?I = "Math_min (js_div (num t) (num m)) (num 1)"
  let ?x = "real_of_int t / real_of_int m"
  have a: "real_of_int 4 / 5 = 0.8" "real_of_int 3 / 5 = 0.6" "real_of_int 2 / 5 = 0.4"
    "real_of_int 1 / 5 = 0.2" by simp_all
  have 4: "js_greater ?I (Fin (lit 0.8)) \<longleftrightarrow> 0.8 < ?x"
    using band_test [OF assms, of 4] by (simp only: a)
  have 3: "js_greater ?I (Fin (lit 0.6)) \<longleftrightarrow> 0.6 < ?x"
    using band_test [OF assms, of 3] by (simp only: a)
  have 2: "js_greater ?I (Fin (lit 0.4)) \<longleftrightarrow> 0.4 < ?x"
    using band_test [OF assms, of 2] by (simp only: a)
  have 1: "js_greater ?I (Fin (lit 0.2)) \<longleftrightarrow> 0.2 < ?x"
    using band_test [OF assms, of 1] by (simp only: a)
  show ?thesis unfolding heatColor_def heat_band_def by (simp only: 1 2 3 4)
qed

lemma heat_color_neg:
  assumes "m < 0" and "t \<le> m" and "\<bar>t\<bar> < 2 ^ 49"
  shows "heatColor (Math_min (js_div (num t) (num m)) (num 1)) = ''#7f1d1d''"
    and "heat_band (real_of_int t / real_of_int m) = ''#7f1d1d''"
proof -
  let ?x = "real_of_int t / real_of_int m"
  have m0: "m \<noteq> 0" and t0: "t \<noteq> 0" using assms(1,2) by simp_all
  have mb: "\<bar>m\<bar> < 2 ^ 49" using assms by simp
  have "real_of_int t \<le> real_of_int m" and "real_of_int m < 0"
    using assms(1,2) by simp_all
  then have x1: "1 \<le> ?x" by (simp add: field_simps)
  have "?x \<le> \<bar>?x\<bar>" by (rule abs_ge_self)
  also have "\<dots> \<le> 2 ^ 1000" using t0 m0 assms(3) mb by (rule ratio_normal)
  finally have "7 / 8 \<le> rnd ?x" using x1 by (intro rnd_ge_1)
  with lit_08(2) have g: "lit 0.8 < min (rnd ?x) 1" by simp
  have I: "js_div (num t) (num m) = Fin (rnd ?x)" using m0 assms(3) mb by (rule intensity_Fin)
  have "Math_min (js_div (num t) (num m)) (num 1) = Fin (min (rnd ?x) 1)"
    by (auto simp: I num_numerals Math_min_def)
  then show "heatColor (Math_min (js_div (num t) (num m)) (num 1)) = ''#7f1d1d''"
    using g by (simp add: heatColor_def)
  have "0.8 < ?x" using x1 by linarith
  then show "heat_band ?x = ''#7f1d1d''" unfolding heat_band_def by (simp only: if_True)
qed

lemma heat_color_zero:
  assumes "t \<le> 0" and "\<bar>t\<bar> < 2 ^ 49"
  shows "heatColor (Math_min (js_div (num t) (num 0)) (num 1)) = ''#fbbf24''"
proof (cases "t = 0")
  case True
  then show ?thesis by (simp add: num_numerals heatColor_NaN)
next
  case False
  then have "real_of_int t < 0" using assms(1) by simp
  then have "js_div (num t) (num 0) = NegInf"
    by (simp add: num_49 [OF assms(2)] num_numerals)
  then show ?thesis by (simp add: heatColor_def Math_min_def num_numerals)
qed

lemma heat_band_0: "heat_band 0 = ''#fbbf24''"
  by (simp add: heat_band_def)

lemma heat_band_1: "heat_band 1 = ''#7f1d1d''"
  by (simp add: heat_band_def)

lemma lit_08_val: "lit 0.8 = 7205759403792794 / 2 ^ 53"
proof -
  have b: "binade (8 / 10) = - 1" by (simp add: binade_def bit_length.simps)
  have "round_even (8 / 10 / 2 powi (- 1 - 52)) = 7205759403792794"
    by (simp add: round_even_def Let_def power_int_minus_divide)
  from rnd_eval [OF _ b _ this] show ?thesis by (simp add: lit_def power_int_minus_divide)
qed

lemma lit_06_val: "lit 0.6 = 5404319552844595 / 2 ^ 53"
proof -
  have b: "binade (6 / 10) = - 1" by (simp add: binade_def bit_length.simps)
  have "round_even (6 / 10 / 2 powi (- 1 - 52)) = 5404319552844595"
    by (simp add: round_even_def Let_def power_int_minus_divide)
  from rnd_eval [OF _ b _ this] show ?thesis by (simp add: lit_def power_int_minus_divide)
qed


lemma near_08: "rnd (7200000000000001 / 9000000000000001) = 7205759403792794 / 2 ^ 53"
proof -
  have b: "binade (7200000000000001 / 9000000000000001) = - 1"
    by (simp add: binade_def bit_length.simps)
  have "round_even (7200000000000001 / 9000000000000001 / 2 powi (- 1 - 52)) = 7205759403792794"
    by (simp add: round_even_def Let_def power_int_minus_divide)
  from rnd_eval [OF _ b _ this] show ?thesis by (simp add: power_int_minus_divide)
qed

text \<open>
  C5: the claim as stated fails in three ways.  Where the visible maximum is 0, a
  location at the maximum has the ratio \<open>0 / 0\<close> and gets the lightest colour, not the
  darkest.  Where the totals are large the quotient is rounded: 7200000000000001 over
  9000000000000001 is above 0.8, but the nearest double is the one of the literal
  \<^verbatim>\<open>0.8\<close>, the comparison is false and the location falls in the second band.  And a set
  with more locations than \<^verbatim>\<open>Math.max\<close> takes arguments gets no colour at all.
\<close>

theorem heat_top_band_counterexample:
  "totalVotes (station ''A'' 0 [] []) = Max (totalVotes ` set [station ''A'' 0 [] []])
   \<and> VoteMap 1 [station ''A'' 0 [] []] Heatmap
       = Inr [\<lparr>radius = Fin 4, color = ''#fbbf24'', opacity = 0.6, stroke = False\<rparr>]
   \<and> heat_band (7200000000000001 / 9000000000000001) = ''#7f1d1d''
   \<and> map_sum id (map color)
        (VoteMap 2 [station ''A'' 7200000000000001 [] [], station ''B'' 9000000000000001 [] []]
           Heatmap)
       = Inr [''#dc2626'', ''#7f1d1d'']
   \<and> VoteMap 125000 (replicate 130000 (station ''A'' 0 [] [])) Heatmap = Inl RangeError"
proof (intro conjI)
  show "totalVotes (station ''A'' 0 [] []) = Max (totalVotes ` set [station ''A'' 0 [] []])"
    by simp
  have z: "fl 0 = Fin 0" using fl_of_int [of 0] by simp
  have f: "fl 4 = Fin 4" using fl_of_int [of 4] by simp
  show "VoteMap 1 [station ''A'' 0 [] []] Heatmap
       = Inr [\<lparr>radius = Fin 4, color = ''#fbbf24'', opacity = 0.6, stroke = False\<rparr>]"
    by (simp add: VoteMap_Inr heat_visuals station_def num_numerals Math_max2_def
        heatColor_def Math_min_def z f)
  show "heat_band (7200000000000001 / 9000000000000001) = ''#7f1d1d''"
    by (simp add: heat_band_def)
  have a: "num 7200000000000001 = Fin 7200000000000001" using num_of_int [of 7200000000000001] by simp
  have b: "num 9000000000000001 = Fin 9000000000000001" using num_of_int [of 9000000000000001] by simp
  have one: "fl 1 = Fin 1" using fl_of_int [of 1] by simp
  have "rnd (7200000000000001 / 9000000000000001) = lit 0.8"
    by (simp only: near_08 lit_08_val)
  moreover have "\<bar>lit 0.8\<bar> < 2 ^ 1024" unfolding lit_08_val by simp
  ultimately have q: "fl (7200000000000001 / 9000000000000001) = Fin (lit 0.8)"
    using fl_Fin [of "7200000000000001 / 9000000000000001"] by (simp only:)
  have l68: "lit 0.6 < lit 0.8" unfolding lit_08_val lit_06_val by simp
  have l81: "lit 0.8 < 1" using lit_08(2) by simp
  have cA: "heatColor (Math_min (Fin (lit (4 / 5))) (Fin 1)) = ''#dc2626''"
    using l68 l81 by (simp add: heatColor_def Math_min_def)
  have cB: "heatColor (Math_min (Fin 1) (Fin 1)) = ''#7f1d1d''"
    using l81 by (simp add: heatColor_def Math_min_def)
  show "map_sum id (map color)
        (VoteMap 2 [station ''A'' 7200000000000001 [] [], station ''B'' 9000000000000001 [] []]
           Heatmap)
       = Inr [''#dc2626'', ''#7f1d1d'']"
    by (simp add: VoteMap_Inr heat_visuals station_def a b Math_max2_def num_numerals q one cA cB)
  show "VoteMap 125000 (replicate 130000 (station ''A'' 0 [] [])) Heatmap = Inl RangeError"
    by (rule VoteMap_RangeError) simp
qed

text \<open>
  C5, amended: in the heat view, for a location of a visible set that has no more
  locations than \<^verbatim>\<open>Math.max\<close> takes arguments and whose totals are all below \<open>2 ^ 49\<close> in
  absolute value, \<^verbatim>\<open>stats\<close> returns and the stroke is never set; when the maximum
  \<open>totalVotes\<close> of the visible set is not 0 the colour is the band of the exact ratio
  \<open>totalVotes / max\<close> (above 0.8 \<open>#7f1d1d\<close>, above 0.6 \<open>#dc2626\<close>, above 0.4 \<open>#ea580c\<close>,
  above 0.2 \<open>#f59e0b\<close>, else \<open>#fbbf24\<close>), and when it is 0 the colour is the lightest; so
  a location at a non-zero maximum is in the top band and a location with
  \<open>totalVotes = 0\<close> is in the lowest band.  Below \<open>2 ^ 49\<close> a ratio of two totals that is
  not a threshold differs from it by more than the rounding of the quotient and of the
  literal, so the comparison of the doubles decides as the comparison of the exact
  numbers.
\<close>

theorem heat_bands:
  assumes "loc \<in> set data" and "length data \<le> maxArgs"
    and "\<forall>d \<in> set data. \<bar>totalVotes d\<bar> < 2 ^ 49"
  shows "\<exists>st. stats maxArgs data = Inr st
    \<and> stroke (getVisuals st Heatmap loc) = False
    \<and> (Max (totalVotes ` set data) \<noteq> 0 \<longrightarrow>
         color (getVisuals st Heatmap loc) =
           heat_band (real_of_int (totalVotes loc) / real_of_int (Max (totalVotes ` set data))))
    \<and> (Max (totalVotes ` set data) = 0 \<longrightarrow> color (getVisuals st Heatmap loc) = ''#fbbf24'')
    \<and> (totalVotes loc = Max (totalVotes ` set data) \<and> Max (totalVotes ` set data) \<noteq> 0 \<longrightarrow>
         color (getVisuals st Heatmap loc) = ''#7f1d1d'')
    \<and> (totalVotes loc = 0 \<longrightarrow> color (getVisuals st Heatmap loc) = ''#fbbf24'')"
proof -
  let ?m = "Max (totalVotes ` set data)"
  let ?t = "totalVotes loc"
  from assms(1) have ne: "data \<noteq> []" by auto
  have b53: "\<forall>d \<in> set data. \<bar>totalVotes d\<bar> < 2 ^ 53"
  proof
    fix d assume "d \<in> set data"
    with assms(3) have "\<bar>totalVotes d\<bar> < 2 ^ 49" by (rule bspec)
    also have "(2::int) ^ 49 < 2 ^ 53" by simp
    finally show "\<bar>totalVotes d\<bar> < 2 ^ 53" .
  qed
  from stats_max [OF ne assms(2) b53] obtain st where st: "stats maxArgs data = Inr st"
    and ms: "max_stat st = Fin (of_int ?m)" by auto
  have tb: "\<bar>?t\<bar> < 2 ^ 49" using assms(3,1) by (rule bspec)
  have "?m \<in> totalVotes ` set data" using ne by (intro Max_in) simp_all
  then obtain d where d: "d \<in> set data" and dm: "?m = totalVotes d" by auto
  have mb: "\<bar>?m\<bar> < 2 ^ 49" unfolding dm using assms(3) d by (rule bspec)
  have le: "?t \<le> ?m" using assms(1) by (intro Max_ge) simp_all
  have nm: "num ?m = Fin (of_int ?m)" using mb by (rule num_49)
  have c: "color (getVisuals st Heatmap loc) = heatColor (Math_min (js_div (num ?t) (num ?m)) (num 1))"
    by (simp only: heat_visuals ms nm Visuals.simps)
  have s: "stroke (getVisuals st Heatmap loc) = False" by (simp only: heat_visuals Visuals.simps)
  have band: "color (getVisuals st Heatmap loc) = heat_band (real_of_int ?t / real_of_int ?m)"
    if "?m \<noteq> 0"
  proof (cases "0 < ?m")
    case True
    then have "?m < 2 ^ 49" using mb by simp
    with True show ?thesis unfolding c using tb by (intro heat_color_pos)
  next
    case False
    with that have "?m < 0" by simp
    then show ?thesis unfolding c using le tb by (simp only: heat_color_neg)
  qed
  have zero: "color (getVisuals st Heatmap loc) = ''#fbbf24''" if "?m = 0"
  proof -
    have "?t \<le> 0" using le that by simp
    then show ?thesis unfolding c that using tb by (rule heat_color_zero)
  qed
  have top: "color (getVisuals st Heatmap loc) = ''#7f1d1d''" if "?t = ?m" and "?m \<noteq> 0"
  proof -
    have "real_of_int ?m / real_of_int ?m = 1" using that(2) by simp
    then show ?thesis using band [OF that(2)] by (simp only: that(1) heat_band_1)
  qed
  have low: "color (getVisuals st Heatmap loc) = ''#fbbf24''" if "?t = 0"
  proof (cases "?m = 0")
    case True
    then show ?thesis by (rule zero)
  next
    case False
    then show ?thesis using band [OF False] by (simp only: that of_int_0 div_0 heat_band_0)
  qed
  from st s band zero top low show ?thesis by blast
qed

theorem heat_bands_witness:
  "\<exists>st. stats 4 [station ''A'' 10 [] [], station ''B'' 30 [] [], station ''C'' 50 [] [],
                 station ''D'' 0 [] []] = Inr st
     \<and> map (\<lambda>l. color (getVisuals st Heatmap l))
         [station ''B'' 30 [] [], station ''C'' 50 [] [], station ''D'' 0 [] []]
       = [''#ea580c'', ''#7f1d1d'', ''#fbbf24'']"
proof -
  let ?data = "[station ''A'' 10 [] [], station ''B'' 30 [] [], station ''C'' 50 [] [],
                station ''D'' 0 [] []]"
  have hB: "station ''B'' 30 [] [] \<in> set ?data"
    and hC: "station ''C'' 50 [] [] \<in> set ?data"
    and hD: "station ''D'' 0 [] [] \<in> set ?data"
    by simp_all
  have len: "length ?data \<le> 4" by simp
  have b: "\<forall>d \<in> set ?data. \<bar>totalVotes d\<bar> < 2 ^ 49" by (simp add: station_def)
  have m: "Max (totalVotes ` set ?data) = 50" by (simp add: station_def)
  from heat_bands [OF hB len b] heat_bands [OF hC len b] heat_bands [OF hD len b] show ?thesis
    unfolding m by (auto simp: station_def heat_band_def)
qed
















section \<open>Leaderboards: properties\<close>

subsection \<open>Sorting and truncation\<close>

lemma non_increasing_sort_desc: "non_increasing (sort_desc t)"
proof -
  have "sorted (map (\<lambda>e. - snd e) (sort_key (\<lambda>e. - snd e) t))" by (rule sorted_sort_key)
  then show ?thesis by (simp add: non_increasing_def sort_desc_def sorted_map)
qed

lemma non_increasing_take: "non_increasing t \<Longrightarrow> non_increasing (take n t)"
  unfolding non_increasing_def by (rule sorted_wrt_take)

lemma sort_desc_stable:
  "filter (\<lambda>e. snd e = v) (sort_desc t) = filter (\<lambda>e. snd e = v) t"
  using sort_key_stable [of "\<lambda>e. - snd e" "- v" t] by (simp add: sort_desc_def)

lemma tally_sum_insort:
  "tally_sum (insort_key f e t) = snd e + tally_sum t"
  by (induction t) (simp_all add: tally_sum_def)

lemma tally_sum_sort_desc: "tally_sum (sort_desc t) = tally_sum t"
  by (induction t) (simp_all add: sort_desc_def tally_sum_insort tally_sum_Cons)

lemma set_sort_desc: "set (sort_desc t) = set t"
  by (simp add: sort_desc_def)

lemma tally_sum_take:
  assumes "\<forall>e \<in> set t. 0 \<le> snd e"
  shows "tally_sum (take n t) \<le> tally_sum t"
proof -
  have "tally_sum t = tally_sum (take n t) + tally_sum (drop n t)"
  proof -
    have "sum_list (map snd (take n t @ drop n t))
        = sum_list (map snd (take n t)) + sum_list (map snd (drop n t))"
      by (simp only: map_append sum_list_append)
    then show ?thesis by (simp add: tally_sum_def)
  qed
  moreover have "0 \<le> tally_sum (drop n t)"
  proof -
    have "\<forall>e \<in> set (drop n t). 0 \<le> snd e" using assms by (blast dest: in_set_dropD)
    then show ?thesis unfolding tally_sum_def by (auto intro!: sum_list_nonneg)
  qed
  ultimately show ?thesis by simp
qed

subsection \<open>The order of enumeration\<close>

lemma set_insert_key: "set (insert_key k ks) = insert k (set ks)"
  by (induction ks) auto

lemma distinct_insert_key: "k \<notin> set ks \<Longrightarrow> distinct ks \<Longrightarrow> distinct (insert_key k ks)"
  by (induction ks) (auto simp: set_insert_key)

lemma set_place_key: "set (place_key k ks) = insert k (set ks)"
  by (simp add: place_key_def set_insert_key)

lemma distinct_place_key: "k \<notin> set ks \<Longrightarrow> distinct ks \<Longrightarrow> distinct (place_key k ks)"
  by (simp add: place_key_def distinct_insert_key)

lemma property_order_snoc: "property_order (ks @ [k]) = place_key k (property_order ks)"
  by (simp add: property_order_def)

lemma set_property_order: "set (property_order ks) = set ks"
proof (induction ks rule: rev_induct)
  case Nil
  show ?case by (simp add: property_order_def)
next
  case (snoc k ks)
  then show ?case by (simp add: property_order_snoc set_place_key)
qed

lemma distinct_property_order: "distinct ks \<Longrightarrow> distinct (property_order ks)"
proof (induction ks rule: rev_induct)
  case Nil
  show ?case by (simp add: property_order_def)
next
  case (snoc k ks)
  then have "k \<notin> set (property_order ks)" and "distinct (property_order ks)"
    by (simp_all add: set_property_order)
  then show ?case unfolding property_order_snoc by (rule distinct_place_key)
qed

lemma property_order_plain:
  "\<forall>k \<in> set ks. \<not> is_array_index k \<Longrightarrow> property_order ks = ks"
proof (induction ks rule: rev_induct)
  case Nil
  show ?case by (simp add: property_order_def)
next
  case (snoc k ks)
  then show ?case by (simp add: property_order_snoc place_key_def)
qed

lemma others_insert_key:
  "is_array_index k \<Longrightarrow>
   filter (\<lambda>k. \<not> is_array_index k) (insert_key k ks) = filter (\<lambda>k. \<not> is_array_index k) ks"
  by (induction ks) simp_all

lemma others_property_order:
  "filter (\<lambda>k. \<not> is_array_index k) (property_order ks) = filter (\<lambda>k. \<not> is_array_index k) ks"
proof (induction ks rule: rev_induct)
  case Nil
  show ?case by (simp add: property_order_def)
next
  case (snoc k ks)
  then show ?case by (simp add: property_order_snoc place_key_def others_insert_key)
qed

lemma insert_key_prefix:
  assumes "\<forall>k' \<in> set os. \<not> is_array_index k'"
  shows "insert_key k (is @ os) = insert_key k is @ os"
proof (induction "is")
  case Nil
  show ?case using assms by (cases os) simp_all
next
  case (Cons a "is")
  then show ?case by simp
qed

lemma indices_insert_key:
  "is_array_index k \<Longrightarrow> \<forall>k' \<in> set ks. is_array_index k' \<Longrightarrow>
   \<forall>k' \<in> set (insert_key k ks). is_array_index k'"
  by (simp add: set_insert_key)

lemma indices_first:
  "property_order ks
     = filter is_array_index (property_order ks) @ filter (\<lambda>k. \<not> is_array_index k) ks"
proof (induction ks rule: rev_induct)
  case Nil
  show ?case by (simp add: property_order_def)
next
  case (snoc k ks)
  let ?I = "filter is_array_index (property_order ks)"
  let ?O = "filter (\<lambda>k. \<not> is_array_index k) ks"
  have po: "property_order ks = ?I @ ?O" by (rule snoc.IH)
  show ?case
  proof (cases "is_array_index k")
    case True
    have "insert_key k (?I @ ?O) = insert_key k ?I @ ?O" by (rule insert_key_prefix) simp
    then have p: "property_order (ks @ [k]) = insert_key k ?I @ ?O"
      using True po by (simp add: property_order_snoc place_key_def)
    have "\<forall>k' \<in> set (insert_key k ?I). is_array_index k'"
      using True by (simp add: set_insert_key)
    then have "filter is_array_index (insert_key k ?I) = insert_key k ?I"
      by (simp only: filter_id_conv)
    moreover have "filter is_array_index ?O = []" by (simp add: filter_empty_conv)
    ultimately show ?thesis using True by (simp add: p)
  next
    case False
    have "property_order (ks @ [k]) = ?I @ ?O @ [k]"
      using False po by (simp add: property_order_snoc place_key_def)
    moreover have "filter is_array_index (?I @ ?O @ [k]) = ?I"
      using False by (simp add: filter_empty_conv)
    ultimately show ?thesis using False by simp
  qed
qed

lemma sorted_insert_key:
  "is_array_index k \<Longrightarrow> \<forall>k' \<in> set ks. is_array_index k' \<Longrightarrow>
   sorted (map index_value ks) \<Longrightarrow> sorted (map index_value (insert_key k ks))"
  by (induction ks) (auto simp: set_insert_key)

lemma indices_ascending:
  "sorted (map index_value (filter is_array_index (property_order ks)))"
proof (induction ks rule: rev_induct)
  case Nil
  show ?case by (simp add: property_order_def)
next
  case (snoc k ks)
  let ?I = "filter is_array_index (property_order ks)"
  let ?O = "filter (\<lambda>k. \<not> is_array_index k) ks"
  have po: "property_order ks = ?I @ ?O" by (rule indices_first)
  show ?case
  proof (cases "is_array_index k")
    case True
    have "insert_key k (?I @ ?O) = insert_key k ?I @ ?O" by (rule insert_key_prefix) simp
    then have p: "property_order (ks @ [k]) = insert_key k ?I @ ?O"
      using True po by (simp add: property_order_snoc place_key_def)
    have "\<forall>k' \<in> set (insert_key k ?I). is_array_index k'"
      using True by (simp add: set_insert_key)
    then have "filter is_array_index (insert_key k ?I) = insert_key k ?I"
      by (simp only: filter_id_conv)
    moreover have "filter is_array_index ?O = []" by (simp add: filter_empty_conv)
    ultimately have "filter is_array_index (property_order (ks @ [k])) = insert_key k ?I"
      by (simp add: p)
    moreover have "sorted (map index_value (insert_key k ?I))"
      using True _ snoc.IH by (rule sorted_insert_key) simp
    ultimately show ?thesis by simp
  next
    case False
    have "property_order (ks @ [k]) = property_order ks @ [k]"
      using False by (simp add: property_order_snoc place_key_def)
    then show ?thesis using False snoc.IH by simp
  qed
qed

subsection \<open>Per-key sums in the order of enumeration\<close>

lemma set_first_seen: "set (first_seen ks) = set ks"
  by (induction ks) auto

lemma distinct_first_seen: "distinct (first_seen ks)"
  by (induction ks) (simp_all add: set_first_seen)

lemma first_seen_snoc:
  "first_seen (ks @ [k]) = (if k \<in> set ks then first_seen ks else first_seen ks @ [k])"
proof (induction ks)
  case Nil
  show ?case by simp
next
  case (Cons a ks)
  show ?case
  proof (cases "k = a")
    case True
    then show ?thesis using Cons by simp
  next
    case False
    then show ?thesis using Cons by simp
  qed
qed

lemma key_total_snoc:
  "key_total (es @ [(k, v)]) k' = key_total es k' + (if k' = k then v else 0)"
  by (simp add: key_total_def)

lemma key_total_absent: "k \<notin> fst ` set es \<Longrightarrow> key_total es k = 0"
proof -
  assume "k \<notin> fst ` set es"
  then have "filter (\<lambda>e. fst e = k) es = []" by (auto simp: filter_empty_conv)
  then show ?thesis by (simp add: key_total_def)
qed

lemma get_or0_map: "k \<in> set ks \<Longrightarrow> get_or0 (map (\<lambda>k. (k, g k)) ks) k = g k"
  by (simp add: get_or0_def map_of_map_restrict)

lemma js_update_map:
  "distinct ks \<Longrightarrow>
   js_update (map (\<lambda>k'. (k', g k')) ks) k x = map (\<lambda>k'. (k', if k' = k then x else g k')) ks"
proof (induction ks)
  case Nil
  show ?case by simp
next
  case (Cons a ks)
  show ?case
  proof (cases "a = k")
    case True
    with Cons.prems have "k \<notin> set ks" by simp
    then have "map (\<lambda>k'. (k', if k' = k then x else g k')) ks = map (\<lambda>k'. (k', g k')) ks"
      by (intro map_cong) auto
    with True show ?thesis by simp
  next
    case False
    with Cons show ?thesis by simp
  qed
qed

lemma insert_index_map:
  "insert_index k x (map (\<lambda>k'. (k', g k')) ks)
     = map (\<lambda>k'. (k', if k' = k then x else g k')) (insert_key k ks)"
  if "k \<notin> set ks"
  using that by (induction ks) auto

lemma keys_totals_in_order:
  "map fst (totals_in_order es) = property_order (first_seen (map fst es))"
  by (simp add: totals_in_order_def comp_def)

lemma set_keys_totals_in_order: "set (map fst (totals_in_order es)) = fst ` set es"
  by (simp only: keys_totals_in_order set_property_order set_first_seen set_map)

lemma distinct_keys_totals_in_order: "distinct (property_order (first_seen (map fst es)))"
  by (intro distinct_property_order distinct_first_seen)

lemma map_key_total_snoc:
  "map (\<lambda>k'. (k', key_total (es @ [(k, v)]) k')) ks
     = map (\<lambda>k'. (k', if k' = k then key_total es k + v else key_total es k')) ks"
  by (intro map_cong refl) (simp add: key_total_snoc)

lemma totals_in_order_snoc:
  "totals_in_order (es @ [(k, v)]) = js_set (totals_in_order es) k (key_total es k + v)"
proof (cases "k \<in> fst ` set es")
  case True
  then have "k \<in> set (map fst es)" by simp
  then have fs: "first_seen (map fst (es @ [(k, v)])) = first_seen (map fst es)"
    by (simp add: first_seen_snoc)
  have "js_set (totals_in_order es) k (key_total es k + v)
      = js_update (totals_in_order es) k (key_total es k + v)"
    using True by (simp only: js_set_def set_keys_totals_in_order if_True)
  also have "\<dots> = map (\<lambda>k'. (k', if k' = k then key_total es k + v else key_total es k'))
                 (property_order (first_seen (map fst es)))"
    unfolding totals_in_order_def using distinct_keys_totals_in_order by (rule js_update_map)
  also have "\<dots> = totals_in_order (es @ [(k, v)])"
    by (simp only: totals_in_order_def fs map_key_total_snoc)
  finally show ?thesis by (rule sym)
next
  case False
  then have nk: "k \<notin> set (map fst es)" by simp
  then have fs: "first_seen (map fst (es @ [(k, v)])) = first_seen (map fst es) @ [k]"
    by (simp add: first_seen_snoc)
  let ?P = "property_order (first_seen (map fst es))"
  have out: "k \<notin> set ?P" using nk by (simp add: set_property_order set_first_seen)
  have po: "property_order (first_seen (map fst (es @ [(k, v)]))) = place_key k ?P"
    by (simp only: fs property_order_snoc)
  have z: "key_total es k = 0" using False by (rule key_total_absent)
  have same: "map (\<lambda>k'. (k', if k' = k then key_total es k + v else key_total es k')) ?P
      = map (\<lambda>k'. (k', key_total es k')) ?P"
    using out by (intro map_cong) auto
  show ?thesis
  proof (cases "is_array_index k")
    case True
    have "js_set (totals_in_order es) k (key_total es k + v)
        = insert_index k (key_total es k + v) (totals_in_order es)"
      using False True by (simp only: js_set_def set_keys_totals_in_order if_False if_True)
    also have "\<dots> = map (\<lambda>k'. (k', if k' = k then key_total es k + v else key_total es k'))
                   (insert_key k ?P)"
      unfolding totals_in_order_def using out by (rule insert_index_map)
    also have "\<dots> = totals_in_order (es @ [(k, v)])"
      using True by (simp only: totals_in_order_def po place_key_def if_True map_key_total_snoc)
    finally show ?thesis by (rule sym)
  next
    case idx: False
    have "js_set (totals_in_order es) k (key_total es k + v)
        = totals_in_order es @ [(k, key_total es k + v)]"
      using False idx by (simp only: js_set_def set_keys_totals_in_order if_False)
    also have "\<dots> = map (\<lambda>k'. (k', if k' = k then key_total es k + v else key_total es k'))
                   (?P @ [k])"
      by (simp add: totals_in_order_def same)
    also have "\<dots> = totals_in_order (es @ [(k, v)])"
      using idx by (simp only: totals_in_order_def po place_key_def if_False map_key_total_snoc)
    finally show ?thesis by (rule sym)
  qed
qed

lemma get_or0_totals_in_order: "get_or0 (totals_in_order es) k = key_total es k"
proof (cases "k \<in> fst ` set es")
  case True
  then have "k \<in> set (property_order (first_seen (map fst es)))"
    by (simp add: set_property_order set_first_seen)
  then show ?thesis unfolding totals_in_order_def by (rule get_or0_map)
next
  case False
  then have "k \<notin> fst ` set (totals_in_order es)"
    using set_keys_totals_in_order [of es] by simp
  then show ?thesis using False by (simp add: get_or0_absent key_total_absent)
qed

lemma tally_sum_totals_in_order: "tally_sum (totals_in_order es) = tally_sum es"
proof (induction es rule: rev_induct)
  case Nil
  show ?case by (simp add: totals_in_order_def property_order_def tally_sum_def)
next
  case (snoc e es)
  obtain k v where e: "e = (k, v)" by (cases e)
  have "tally_sum (totals_in_order (es @ [(k, v)]))
      = tally_sum (js_set (totals_in_order es) k (get_or0 (totals_in_order es) k + v))"
    by (simp only: totals_in_order_snoc get_or0_totals_in_order)
  also have "\<dots> = tally_sum (totals_in_order es) + v" by (rule tally_sum_js_set)
  finally show ?case using snoc by (simp add: e tally_sum_def)
qed

lemma key_total_nonneg: "\<forall>e \<in> set es. 0 \<le> snd e \<Longrightarrow> 0 \<le> key_total es k"
  unfolding key_total_def by (rule sum_list_nonneg) auto

lemma totals_in_order_nonneg:
  "\<forall>e \<in> set es. 0 \<le> snd e \<Longrightarrow> \<forall>x \<in> set (totals_in_order es). 0 \<le> snd x"
  by (auto simp: totals_in_order_def key_total_nonneg)

lemma abs_key_total: "\<bar>key_total es k\<bar> \<le> sum_list (map (\<lambda>e. \<bar>snd e\<bar>) es)"
proof (induction es)
  case Nil
  show ?case by (simp add: key_total_def)
next
  case (Cons e es)
  then show ?case by (auto simp: key_total_def)
qed

subsection \<open>The accumulation\<close>

lemma number_exact: "\<bar>k\<bar> < 2 ^ 53 \<Longrightarrow> number k = Some k"
  by (simp add: number_def num_of_int)

lemma js_get_totals_in_order:
  "js_get (totals_in_order es) k =
     (if k \<in> fst ` set es then Number (key_total es k)
      else if k \<in> set inherited_names then Inherited else Undefined)"
proof -
  have "map_of (totals_in_order es) k
      = (if k \<in> fst ` set es then Some (key_total es k) else None)"
    by (simp add: totals_in_order_def map_of_map_restrict restrict_map_def
        set_property_order set_first_seen)
  then show ?thesis by (simp add: js_get_def)
qed

lemma add_entry_totals_in_order:
  assumes "k \<notin> set inherited_names" and "\<bar>key_total es k + v\<bar> < 2 ^ 53"
  shows "add_entry ''ALL'' (k, v) (totals_in_order es) = Some (totals_in_order (es @ [(k, v)]))"
proof (cases "k \<in> fst ` set es")
  case True
  have "add_entry ''ALL'' (k, v) (totals_in_order es)
      = map_option (js_set (totals_in_order es) k) (number (key_total es k + v))"
    using True by (simp add: add_entry_def js_get_totals_in_order)
  then show ?thesis by (simp only: number_exact [OF assms(2)] option.map totals_in_order_snoc)
next
  case False
  then have z: "key_total es k = 0" by (rule key_total_absent)
  have "add_entry ''ALL'' (k, v) (totals_in_order es)
      = map_option (js_set (totals_in_order es) k) (number (key_total es k + v))"
    using False assms(1) by (simp add: add_entry_def js_get_totals_in_order z)
  then show ?thesis by (simp only: number_exact [OF assms(2)] option.map totals_in_order_snoc)
qed

lemma fold_option_append:
  "fold_option f (xs @ ys) s = Option.bind (fold_option f xs s) (fold_option f ys)"
  by (induction xs arbitrary: s) (simp_all split: option.splits)

lemma fold_option_snoc:
  "fold_option f (xs @ [x]) s = Option.bind (fold_option f xs s) (f x)"
proof -
  have "fold_option f [x] = f x" by (rule ext) (simp split: option.splits)
  then show ?thesis by (simp only: fold_option_append)
qed

lemma safe_entries_snoc:
  assumes "safe_entries (es @ [e])"
  shows "safe_entries es" and "fst e \<notin> set inherited_names"
    and "sum_list (map (\<lambda>e. \<bar>snd e\<bar>) es) + \<bar>snd e\<bar> < 2 ^ 53"
proof -
  have nn: "0 \<le> \<bar>snd e\<bar>" by simp
  from assms have a: "\<forall>x \<in> set es. fst x \<notin> set inherited_names"
    and b: "fst e \<notin> set inherited_names"
    and c: "sum_list (map (\<lambda>e. \<bar>snd e\<bar>) es) + \<bar>snd e\<bar> < 2 ^ 53"
    by (simp_all add: safe_entries_def)
  from c nn have "sum_list (map (\<lambda>e. \<bar>snd e\<bar>) es) < 2 ^ 53" by linarith
  with a show "safe_entries es" by (simp add: safe_entries_def)
  show "fst e \<notin> set inherited_names" by (rule b)
  show "sum_list (map (\<lambda>e. \<bar>snd e\<bar>) es) + \<bar>snd e\<bar> < 2 ^ 53" by (rule c)
qed

lemma fold_totals_in_order:
  "safe_entries es \<Longrightarrow> fold_option (add_entry ''ALL'') es [] = Some (totals_in_order es)"
proof (induction es rule: rev_induct)
  case Nil
  show ?case by (simp add: totals_in_order_def property_order_def)
next
  case (snoc e es)
  obtain k v where e: "e = (k, v)" by (cases e)
  note s = safe_entries_snoc [OF snoc.prems]
  have ih: "fold_option (add_entry ''ALL'') es [] = Some (totals_in_order es)"
    using s(1) by (rule snoc.IH)
  have k: "k \<notin> set inherited_names" using s(2) by (simp add: e)
  have "\<bar>key_total es k + v\<bar> \<le> \<bar>key_total es k\<bar> + \<bar>v\<bar>" by (rule abs_triangle_ineq)
  also have "\<dots> \<le> sum_list (map (\<lambda>e. \<bar>snd e\<bar>) es) + \<bar>v\<bar>"
    using abs_key_total [of es k] by simp
  also have "\<dots> < 2 ^ 53" using s(3) by (simp add: e)
  finally have b: "\<bar>key_total es k + v\<bar> < 2 ^ 53" .
  show ?case
    by (simp only: e fold_option_snoc ih Option.bind.simps add_entry_totals_in_order [OF k b])
qed

lemma add_entry_selected:
  "sel = ''ALL'' \<or> sel = fst e \<Longrightarrow> add_entry sel e acc = add_entry ''ALL'' e acc"
  unfolding add_entry_def by (simp only: if_P simp_thms)

lemma add_entry_skipped:
  "\<not> (sel = ''ALL'' \<or> sel = fst e) \<Longrightarrow> add_entry sel e acc = Some acc"
  unfolding add_entry_def by (simp only: if_False)

lemma fold_option_selected:
  "fold_option (add_entry sel) es acc = fold_option (add_entry ''ALL'') (selected sel es) acc"
proof (induction es arbitrary: acc)
  case Nil
  show ?case by (simp add: selected_def)
next
  case (Cons e es)
  show ?case
  proof (cases "sel = ''ALL'' \<or> sel = fst e")
    case True
    then have s: "selected sel (e # es) = e # selected sel es" by (simp add: selected_def)
    show ?thesis
      by (cases "add_entry ''ALL'' e acc")
        (simp_all add: s add_entry_selected [OF True] Cons.IH)
  next
    case False
    then have s: "selected sel (e # es) = selected sel es" by (simp add: selected_def)
    show ?thesis
      by (simp only: s fold_option.simps add_entry_skipped [OF False] option.case Cons.IH)
  qed
qed

lemma fold_add_location:
  "fold (add_location f) locs acc =
     (Option.bind (fst acc) (fold_option (add_entry (party f)) (concat (map parties locs))),
      Option.bind (snd acc) (fold_option (add_entry (candidate f)) (concat (map candidates locs))))"
proof (induction locs arbitrary: acc)
  case Nil
  have "fold_option g [] = Some" for g :: "string \<times> int \<Rightarrow> tally \<Rightarrow> tally option"
    by (rule ext) simp
  then show ?case by simp
next
  case (Cons loc locs)
  have b: "fold_option g (xs @ ys) = (\<lambda>s. Option.bind (fold_option g xs s) (fold_option g ys))"
    for g :: "string \<times> int \<Rightarrow> tally \<Rightarrow> tally option" and xs ys
    by (rule ext) (rule fold_option_append)
  show ?case by (simp only: fold_simps comp_apply Cons.IH) (simp add: add_location_def b)
qed

lemma topParties_eq:
  "topParties (analytics locs f)
     = map_option (\<lambda>t. take 5 (sort_desc t))
         (fold_option (add_entry ''ALL'') (selected (party f) (concat (map parties locs))) [])"
  by (simp add: analytics_def Let_def fold_add_location fold_option_selected [of "party f"])

lemma topCandidates_eq:
  "topCandidates (analytics locs f)
     = map_option (\<lambda>t. take 5 (sort_desc t))
         (fold_option (add_entry ''ALL'')
            (selected (candidate f) (concat (map candidates locs))) [])"
  by (simp add: analytics_def Let_def fold_add_location fold_option_selected [of "candidate f"])

subsection \<open>The leaderboards\<close>

lemma selected_specific:
  "sel \<noteq> ''ALL'' \<Longrightarrow> selected sel es = filter (\<lambda>e. fst e = sel) es"
  unfolding selected_def by (induction es) auto

lemma selected_ALL: "selected ''ALL'' es = es"
  by (simp add: selected_def)

lemma set_selected: "set (selected sel es) \<subseteq> set es"
  by (simp add: selected_def)

lemma first_seen_const:
  "\<forall>k \<in> set ks. k = x \<Longrightarrow> first_seen ks = (if ks = [] then [] else [x])"
proof (induction ks)
  case Nil
  show ?case by simp
next
  case (Cons a ks)
  then have a: "a = x" and ih: "first_seen ks = (if ks = [] then [] else [x])" by simp_all
  show ?case by (simp add: a ih)
qed

lemma property_order_single: "property_order [k] = [k]"
  by (simp add: property_order_def place_key_def)

lemma totals_in_order_single:
  assumes "sel \<noteq> ''ALL''"
  shows "totals_in_order (selected sel es)
     = (if filter (\<lambda>e. fst e = sel) es = [] then [] else [(sel, key_total es sel)])"
proof -
  let ?F = "filter (\<lambda>e. fst e = sel) es"
  have s: "selected sel es = ?F" using assms by (rule selected_specific)
  have "\<forall>k \<in> set (map fst ?F). k = sel" by simp
  then have fs: "first_seen (map fst ?F) = (if map fst ?F = [] then [] else [sel])"
    by (rule first_seen_const)
  have kt: "key_total ?F sel = key_total es sel" by (simp add: key_total_def)
  show ?thesis
    by (simp add: s totals_in_order_def fs property_order_single kt)
      (simp add: property_order_def)
qed

lemma take_sort_single: "take 5 (sort_desc (if c then [] else [x])) = (if c then [] else [x])"
  by (simp add: sort_desc_def)

lemma tally_sum_concat: "tally_sum (concat tss) = sum_list (map tally_sum tss)"
  by (induction tss) (simp_all add: tally_sum_def)

lemma top_sum_le:
  assumes "\<forall>loc \<in> set locs.
             (\<forall>e \<in> set (parties loc). 0 \<le> snd e) \<and> tally_sum (parties loc) \<le> totalVotes loc"
  shows "tally_sum (take 5 (sort_desc (totals_in_order (concat (map parties locs)))))
           \<le> sum_list (map totalVotes locs)"
proof -
  let ?es = "concat (map parties locs)"
  let ?T = "totals_in_order ?es"
  have es: "\<forall>e \<in> set ?es. 0 \<le> snd e" using assms by auto
  then have "\<forall>x \<in> set ?T. 0 \<le> snd x" by (rule totals_in_order_nonneg)
  then have "\<forall>x \<in> set (sort_desc ?T). 0 \<le> snd x" by (simp only: set_sort_desc)
  then have "tally_sum (take 5 (sort_desc ?T)) \<le> tally_sum (sort_desc ?T)"
    by (rule tally_sum_take)
  also have "\<dots> = tally_sum ?es"
    by (simp only: tally_sum_sort_desc tally_sum_totals_in_order)
  also have "\<dots> = sum_list (map (\<lambda>loc. tally_sum (parties loc)) locs)"
    by (simp add: tally_sum_concat comp_def)
  also have "\<dots> \<le> sum_list (map totalVotes locs)"
    using assms by (intro sum_list_mono) simp
  finally show ?thesis .
qed

lemma top_bounds:
  assumes "map_option (\<lambda>t. take 5 (sort_desc t)) r = Some a"
  shows "length a \<le> 5 \<and> non_increasing a"
proof -
  from assms obtain t where a: "a = take 5 (sort_desc t)" by auto
  show ?thesis unfolding a
    by (intro conjI non_increasing_take non_increasing_sort_desc) simp
qed

lemma top_exact:
  assumes "safe_entries (selected sel es)"
  shows "map_option (\<lambda>t. take 5 (sort_desc t)) (fold_option (add_entry ''ALL'') (selected sel es) [])
     = Some (take 5 (sort_desc (totals_in_order (selected sel es))))"
  by (simp only: fold_totals_in_order [OF assms] option.map)

lemma top_selected:
  assumes "sel \<noteq> ''ALL''" and "safe_entries (selected sel es)"
  shows "map_option (\<lambda>t. take 5 (sort_desc t)) (fold_option (add_entry ''ALL'') (selected sel es) [])
     = Some (if filter (\<lambda>e. fst e = sel) es = [] then [] else [(sel, key_total es sel)])"
  by (simp only: top_exact [OF assms(2)] totals_in_order_single [OF assms(1)] take_sort_single)

lemma number_round_up: "number 9007199254740995 = Some 9007199254740996"
proof -
  have b: "binade 9007199254740995 = 53" by (simp add: binade_def bit_length.simps)
  have "round_even (9007199254740995 / 2 powi (53 - 52)) = 4503599627370498"
    by (simp add: round_even_def Let_def)
  from rnd_eval [OF _ b _ this] have r: "rnd 9007199254740995 = 9007199254740996" by simp
  have "fl 9007199254740995 = Fin (rnd 9007199254740995)" by (rule fl_Fin) (simp add: r)
  then show ?thesis by (simp add: number_def num_def r)
qed

text \<open>
  C4: the claim as stated fails in four places.  A location that satisfies the
  invariant but has a negative entry (six parties with 1, 1, 1, 1, 1 and \<open>-1\<close> vote,
  total 4) has a top-5 party list that sums to 5, more than the total votes of the set.
  Keys that are array indices are enumerated in numeric order, not in first-seen order:
  with the party "2" seen before the party "1" and equal sums, "1" comes first.  A party
  named as an inherited property is not summed: under \<open>constructor\<close> the stored value is
  a string, and under \<open>__proto__\<close> nothing is stored.  And a sum of \<open>2 ^ 53\<close> or more is
  rounded: \<open>2 ^ 53\<close> and 3 votes for one party give \<open>2 ^ 53 + 4\<close>, more than the total
  votes of the set.
\<close>

theorem summarize_counterexample:
  "consistent (station ''A'' 4
      [(''P1'', 1), (''P2'', 1), (''P3'', 1), (''P4'', 1), (''P5'', 1), (''P6'', - 1)]
      [(''ana'', 4)])
   \<and> topParties (analytics
        [station ''A'' 4
           [(''P1'', 1), (''P2'', 1), (''P3'', 1), (''P4'', 1), (''P5'', 1), (''P6'', - 1)]
           [(''ana'', 4)]]
        defaultFilters)
       = Some [(''P1'', 1), (''P2'', 1), (''P3'', 1), (''P4'', 1), (''P5'', 1)]
   \<and> tally_sum [(''P1'', 1), (''P2'', 1), (''P3'', 1), (''P4'', 1), (''P5'', 1)] = 5
   \<and> sum_list (map totalVotes
        [station ''A'' 4
           [(''P1'', 1), (''P2'', 1), (''P3'', 1), (''P4'', 1), (''P5'', 1), (''P6'', - 1)]
           [(''ana'', 4)]]) = 4
   \<and> topParties (analytics
        [station ''A'' 1 [(''2'', 1)] [(''ana'', 1)], station ''B'' 1 [(''1'', 1)] [(''ana'', 1)]]
        defaultFilters) = Some [(''1'', 1), (''2'', 1)]
   \<and> first_seen (map fst (concat (map parties
        [station ''A'' 1 [(''2'', 1)] [(''ana'', 1)], station ''B'' 1 [(''1'', 1)] [(''ana'', 1)]])))
       = [''2'', ''1'']
   \<and> topParties (analytics [station ''A'' 1 [(''constructor'', 1)] [(''ana'', 1)]]
        defaultFilters) = None
   \<and> topParties (analytics [station ''A'' 1 [(''__proto__'', 1)] [(''ana'', 1)]]
        defaultFilters) = Some []
   \<and> topParties (analytics
        [station ''A'' 9007199254740992 [(''P'', 9007199254740992)] [(''ana'', 9007199254740992)],
         station ''B'' 3 [(''P'', 3)] [(''ana'', 3)]]
        defaultFilters) = Some [(''P'', 9007199254740996)]
   \<and> sum_list (map totalVotes
        [station ''A'' 9007199254740992 [(''P'', 9007199254740992)] [(''ana'', 9007199254740992)],
         station ''B'' 3 [(''P'', 3)] [(''ana'', 3)]]) = 9007199254740995"
proof -
  have big: "number 9007199254740992 = Some 9007199254740992"
  proof -
    have b: "binade 9007199254740992 = 53" by (simp add: binade_def bit_length.simps)
    have "round_even (9007199254740992 / 2 powi (53 - 52)) = 4503599627370496"
      by (simp add: round_even_def Let_def)
    from rnd_eval [OF _ b _ this] have r: "rnd 9007199254740992 = 9007199254740992" by simp
    have "fl 9007199254740992 = Fin (rnd 9007199254740992)" by (rule fl_Fin) (simp add: r)
    then show ?thesis by (simp add: number_def num_def r)
  qed
  show ?thesis
    by (simp add: analytics_def add_location_def defaultFilters_def station_def add_entry_def
      js_get_def js_set_def inherited_names_def number_exact number_round_up big
      is_array_index_def is_digit_def index_value_def sort_desc_def
      tally_sum_def consistent_def)
qed

text \<open>
  C4, amended: for every sequence of locations and every filter state, a list that
  \<^verbatim>\<open>analytics\<close> returns as numbers has at most 5 entries and is sorted non-increasing by
  summed value.  When no selected key is a name inherited from \<^verbatim>\<open>Object.prototype\<close> and
  the absolute values of the selected entries add up to less than \<open>2 ^ 53\<close>, the list is
  returned and is the first five entries of the stable descending sort of the exact
  per-key sums, the keys taken in the order of enumeration: keys that are array indices
  first, in ascending numeric order, then the other keys in first-seen order (so, when no
  key is an array index, all keys in first-seen order); entries with equal sums keep
  that order.  When a specific party (candidate) is selected, the list holds that key
  alone, with the sum of its entries, or is empty.  When the party filter is \<open>ALL\<close>, no
  party entry is negative and the party entries of each location sum to at most its
  \<open>totalVotes\<close>, the top-5 party list sums to at most the total votes of the set.
\<close>

theorem summarize_top5:
  "(\<forall>a. topParties (analytics locs f) = Some a \<longrightarrow> length a \<le> 5 \<and> non_increasing a)
   \<and> (\<forall>a. topCandidates (analytics locs f) = Some a \<longrightarrow> length a \<le> 5 \<and> non_increasing a)
   \<and> (safe_entries (selected (party f) (concat (map parties locs))) \<longrightarrow>
        topParties (analytics locs f)
          = Some (take 5 (sort_desc (totals_in_order
              (selected (party f) (concat (map parties locs)))))))
   \<and> (safe_entries (selected (candidate f) (concat (map candidates locs))) \<longrightarrow>
        topCandidates (analytics locs f)
          = Some (take 5 (sort_desc (totals_in_order
              (selected (candidate f) (concat (map candidates locs)))))))
   \<and> filter (\<lambda>e. snd e = v) (sort_desc t) = filter (\<lambda>e. snd e = v) t
   \<and> ((\<forall>k \<in> set ks. \<not> is_array_index k) \<longrightarrow> property_order ks = ks)
   \<and> property_order ks
        = filter is_array_index (property_order ks) @ filter (\<lambda>k. \<not> is_array_index k) ks
   \<and> sorted (map index_value (filter is_array_index (property_order ks)))
   \<and> (party f \<noteq> ''ALL'' \<and> safe_entries (selected (party f) (concat (map parties locs))) \<longrightarrow>
        topParties (analytics locs f)
          = Some (if filter (\<lambda>e. fst e = party f) (concat (map parties locs)) = [] then []
                  else [(party f, key_total (concat (map parties locs)) (party f))]))
   \<and> (candidate f \<noteq> ''ALL''
        \<and> safe_entries (selected (candidate f) (concat (map candidates locs))) \<longrightarrow>
        topCandidates (analytics locs f)
          = Some (if filter (\<lambda>e. fst e = candidate f) (concat (map candidates locs)) = []
                  then []
                  else [(candidate f, key_total (concat (map candidates locs)) (candidate f))]))
   \<and> (party f = ''ALL'' \<and> safe_entries (concat (map parties locs))
        \<and> (\<forall>loc \<in> set locs.
              (\<forall>e \<in> set (parties loc). 0 \<le> snd e) \<and> tally_sum (parties loc) \<le> totalVotes loc)
        \<longrightarrow> (\<exists>a. topParties (analytics locs f) = Some a
                 \<and> tally_sum a \<le> sum_list (map totalVotes locs)))"
proof -
  let ?pe = "concat (map parties locs)"
  let ?ce = "concat (map candidates locs)"
  have c1: "\<forall>a. topParties (analytics locs f) = Some a \<longrightarrow> length a \<le> 5 \<and> non_increasing a"
    unfolding topParties_eq using top_bounds by blast
  have c2: "\<forall>a. topCandidates (analytics locs f) = Some a \<longrightarrow> length a \<le> 5 \<and> non_increasing a"
    unfolding topCandidates_eq using top_bounds by blast
  have c3: "safe_entries (selected (party f) ?pe) \<longrightarrow>
        topParties (analytics locs f)
          = Some (take 5 (sort_desc (totals_in_order (selected (party f) ?pe))))"
    unfolding topParties_eq using top_exact by blast
  have c4: "safe_entries (selected (candidate f) ?ce) \<longrightarrow>
        topCandidates (analytics locs f)
          = Some (take 5 (sort_desc (totals_in_order (selected (candidate f) ?ce))))"
    unfolding topCandidates_eq using top_exact by blast
  have c5: "filter (\<lambda>e. snd e = v) (sort_desc t) = filter (\<lambda>e. snd e = v) t"
    by (rule sort_desc_stable)
  have c6: "(\<forall>k \<in> set ks. \<not> is_array_index k) \<longrightarrow> property_order ks = ks"
    using property_order_plain by blast
  have c7: "property_order ks
        = filter is_array_index (property_order ks) @ filter (\<lambda>k. \<not> is_array_index k) ks"
    by (rule indices_first)
  have c8: "sorted (map index_value (filter is_array_index (property_order ks)))"
    by (rule indices_ascending)
  have c9: "party f \<noteq> ''ALL'' \<and> safe_entries (selected (party f) ?pe) \<longrightarrow>
        topParties (analytics locs f)
          = Some (if filter (\<lambda>e. fst e = party f) ?pe = [] then []
                  else [(party f, key_total ?pe (party f))])"
    unfolding topParties_eq using top_selected by blast
  have c10: "candidate f \<noteq> ''ALL'' \<and> safe_entries (selected (candidate f) ?ce) \<longrightarrow>
        topCandidates (analytics locs f)
          = Some (if filter (\<lambda>e. fst e = candidate f) ?ce = [] then []
                  else [(candidate f, key_total ?ce (candidate f))])"
    unfolding topCandidates_eq using top_selected by blast
  have c11: "party f = ''ALL'' \<and> safe_entries ?pe
        \<and> (\<forall>loc \<in> set locs.
              (\<forall>e \<in> set (parties loc). 0 \<le> snd e) \<and> tally_sum (parties loc) \<le> totalVotes loc)
        \<longrightarrow> (\<exists>a. topParties (analytics locs f) = Some a
                 \<and> tally_sum a \<le> sum_list (map totalVotes locs))"
  proof
    assume h: "party f = ''ALL'' \<and> safe_entries ?pe
        \<and> (\<forall>loc \<in> set locs.
              (\<forall>e \<in> set (parties loc). 0 \<le> snd e) \<and> tally_sum (parties loc) \<le> totalVotes loc)"
    then have p: "party f = ''ALL''" and s: "safe_entries ?pe"
      and i: "\<forall>loc \<in> set locs.
              (\<forall>e \<in> set (parties loc). 0 \<le> snd e) \<and> tally_sum (parties loc) \<le> totalVotes loc"
      by simp_all
    have "safe_entries (selected ''ALL'' ?pe)" using s by (simp only: selected_ALL)
    then have "map_option (\<lambda>t. take 5 (sort_desc t))
          (fold_option (add_entry ''ALL'') (selected ''ALL'' ?pe) [])
        = Some (take 5 (sort_desc (totals_in_order (selected ''ALL'' ?pe))))"
      by (rule top_exact)
    then have "topParties (analytics locs f) = Some (take 5 (sort_desc (totals_in_order ?pe)))"
      unfolding topParties_eq p by (simp only: selected_ALL)
    moreover have "tally_sum (take 5 (sort_desc (totals_in_order ?pe)))
        \<le> sum_list (map totalVotes locs)"
      using i by (rule top_sum_le)
    ultimately show "\<exists>a. topParties (analytics locs f) = Some a
                 \<and> tally_sum a \<le> sum_list (map totalVotes locs)"
      by simp
  qed
  show ?thesis by (intro conjI) (rule c1 c2 c3 c4 c5 c6 c7 c8 c9 c10 c11)+
qed

theorem summarize_top5_witness:
  "topParties (analytics
      [station ''A'' 10 [(''VERDE'', 5), (''LIBERAL'', 5)] [(''ana'', 10)],
       station ''B'' 5 [(''LIBERAL'', 2), (''VERDE'', 2), (''MIRA'', 1)] [(''luis'', 5)]]
      defaultFilters)
     = Some [(''VERDE'', 7), (''LIBERAL'', 7), (''MIRA'', 1)]
   \<and> tally_sum [(''VERDE'', 7), (''LIBERAL'', 7), (''MIRA'', 1)]
     \<le> sum_list (map totalVotes
      [station ''A'' 10 [(''VERDE'', 5), (''LIBERAL'', 5)] [(''ana'', 10)],
       station ''B'' 5 [(''LIBERAL'', 2), (''VERDE'', 2), (''MIRA'', 1)] [(''luis'', 5)]])
   \<and> topParties (analytics
      [station ''A'' 10 [(''VERDE'', 5), (''LIBERAL'', 5)] [(''ana'', 10)],
       station ''B'' 5 [(''LIBERAL'', 2), (''VERDE'', 2), (''MIRA'', 1)] [(''luis'', 5)]]
      \<lparr>minVotes = 0, party = ''LIBERAL'', candidate = ''ALL''\<rparr>)
     = Some [(''LIBERAL'', 7)]
   \<and> topParties (analytics
      [station ''A'' 2 [(''b'', 1), (''2'', 1)] [(''ana'', 2)],
       station ''B'' 1 [(''1'', 1)] [(''ana'', 1)]]
      defaultFilters)
     = Some [(''1'', 1), (''2'', 1), (''b'', 1)]"
proof -
  let ?locs = "[station ''A'' 10 [(''VERDE'', 5), (''LIBERAL'', 5)] [(''ana'', 10)],
       station ''B'' 5 [(''LIBERAL'', 2), (''VERDE'', 2), (''MIRA'', 1)] [(''luis'', 5)]]"
  let ?idx = "[station ''A'' 2 [(''b'', 1), (''2'', 1)] [(''ana'', 2)],
       station ''B'' 1 [(''1'', 1)] [(''ana'', 1)]]"
  let ?f = "\<lparr>minVotes = 0, party = ''LIBERAL'', candidate = ''ALL''\<rparr>"
  have pe: "concat (map parties ?locs)
      = [(''VERDE'', 5), (''LIBERAL'', 5), (''LIBERAL'', 2), (''VERDE'', 2), (''MIRA'', 1)]"
    by (simp add: station_def)
  have ie: "concat (map parties ?idx) = [(''b'', 1), (''2'', 1), (''1'', 1)]"
    by (simp add: station_def)
  have s1: "safe_entries (selected (party defaultFilters) (concat (map parties ?locs)))"
    unfolding pe by (simp add: defaultFilters_def selected_def safe_entries_def inherited_names_def)
  have s2: "party ?f \<noteq> ''ALL'' \<and> safe_entries (selected (party ?f) (concat (map parties ?locs)))"
    unfolding pe by (simp add: selected_def safe_entries_def inherited_names_def)
  have s3: "party defaultFilters = ''ALL'' \<and> safe_entries (concat (map parties ?locs))
        \<and> (\<forall>loc \<in> set ?locs.
              (\<forall>e \<in> set (parties loc). 0 \<le> snd e) \<and> tally_sum (parties loc) \<le> totalVotes loc)"
    unfolding pe
    by (simp add: defaultFilters_def safe_entries_def inherited_names_def station_def
        tally_sum_def)
  have s4: "safe_entries (selected (party defaultFilters) (concat (map parties ?idx)))"
    unfolding ie by (simp add: defaultFilters_def selected_def safe_entries_def inherited_names_def)
  note T = summarize_top5 [of ?locs defaultFilters 0 "[]" "[]"]
  note U = summarize_top5 [of ?locs ?f 0 "[]" "[]"]
  note V = summarize_top5 [of ?idx defaultFilters 0 "[]" "[]"]
  have "topParties (analytics ?locs defaultFilters)
      = Some (take 5 (sort_desc (totals_in_order
              (selected (party defaultFilters) (concat (map parties ?locs))))))"
    using s1 by (rule T [THEN conjunct2, THEN conjunct2, THEN conjunct1, THEN mp])
  then have a: "topParties (analytics ?locs defaultFilters)
      = Some [(''VERDE'', 7), (''LIBERAL'', 7), (''MIRA'', 1)]"
    unfolding pe
    by (simp add: defaultFilters_def selected_def totals_in_order_def property_order_def
        place_key_def is_array_index_def is_digit_def key_total_def sort_desc_def)
  have "\<exists>a. topParties (analytics ?locs defaultFilters) = Some a
          \<and> tally_sum a \<le> sum_list (map totalVotes ?locs)"
    using s3 by (rule T [THEN conjunct2, THEN conjunct2, THEN conjunct2, THEN conjunct2,
          THEN conjunct2, THEN conjunct2, THEN conjunct2, THEN conjunct2, THEN conjunct2,
          THEN conjunct2, THEN mp])
  then have b: "tally_sum [(''VERDE'', 7), (''LIBERAL'', 7), (''MIRA'', 1)]
      \<le> sum_list (map totalVotes ?locs)"
    unfolding a by simp
  have "topParties (analytics ?locs ?f)
      = Some (if filter (\<lambda>e. fst e = party ?f) (concat (map parties ?locs)) = [] then []
         else [(party ?f, key_total (concat (map parties ?locs)) (party ?f))])"
    using s2 by (rule U [THEN conjunct2, THEN conjunct2, THEN conjunct2, THEN conjunct2,
          THEN conjunct2, THEN conjunct2, THEN conjunct2, THEN conjunct2, THEN conjunct1,
          THEN mp])
  then have c: "topParties (analytics ?locs ?f) = Some [(''LIBERAL'', 7)]"
    unfolding pe by (simp add: key_total_def)
  have "topParties (analytics ?idx defaultFilters)
      = Some (take 5 (sort_desc (totals_in_order
              (selected (party defaultFilters) (concat (map parties ?idx))))))"
    using s4 by (rule V [THEN conjunct2, THEN conjunct2, THEN conjunct1, THEN mp])
  then have d: "topParties (analytics ?idx defaultFilters)
      = Some [(''1'', 1), (''2'', 1), (''b'', 1)]"
    unfolding ie
    by (simp add: defaultFilters_def selected_def totals_in_order_def property_order_def
        place_key_def is_array_index_def is_digit_def index_value_def key_total_def
        sort_desc_def)
  from a b c d show ?thesis by (intro conjI)
qed

end
